theory Spec2Isabelle
  imports Main
begin

section \<open>Data model of the overlap analytics\<close>

text \<open>
  The overlap detection of the analytics panel works on three plain object types:
  \<^verbatim>\<open>TokenSpan = { token; start; end }\<close>, \<^verbatim>\<open>MatchBlock = { aStart; bStart; size }\<close> and
  \<^verbatim>\<open>TextSpan = { start; end }\<close>. Numbers are indices and offsets, modelled as \<open>int\<close>.
  The field \<^verbatim>\<open>end\<close> is written \<open>endp\<close> and the field \<^verbatim>\<open>size\<close> is written
  \<open>size_mb\<close>, since both names are taken in Isabelle. A \<^verbatim>\<open>TokenSpan\<close> is structurally a
  \<^verbatim>\<open>TextSpan\<close> with one more field, which the record extension expresses.
  A text is a \<open>string\<close>, each \<open>char\<close> standing for one code unit of the JavaScript
  string; the tokenizer only tells ASCII letters, digits and the apostrophe from
  everything else.
\<close>

record TextSpan =
  start :: int
  endp :: int

record TokenSpan = TextSpan +
  token :: string

record MatchBlock =
  aStart :: int
  bStart :: int
  size_mb :: int

text \<open>
  An array read \<^verbatim>\<open>xs[i]\<close>: the element, or \<^verbatim>\<open>undefined\<close> (here \<open>None\<close>) when the
  index is outside the array. Two reads compared with \<^verbatim>\<open>===\<close> are equal when both are
  \<^verbatim>\<open>undefined\<close> or both are the same value.
\<close>

definition js_nth :: "'a list \<Rightarrow> int \<Rightarrow> 'a option" where
  "js_nth xs i = (if 0 \<le> i \<and> i < int (length xs) then Some (xs ! nat i) else None)"

section \<open>Tokenizer\<close>

text \<open>
  \<^verbatim>\<open>tokenizeWithSpans\<close> runs the global regular expression \<^verbatim>\<open>/[a-z0-9']+/gi\<close> over the
  text: each call of \<^verbatim>\<open>exec\<close> skips to the next character of the class and takes the
  longest run of such characters; the token is the run in lower case, with the offsets
  of the run. The scan carries the offset of the rest of the text.
\<close>

definition is_token_char :: "char \<Rightarrow> bool" where
  "is_token_char c =
     (let n = (of_char c :: nat)
      in (97 \<le> n \<and> n \<le> 122) \<or> (65 \<le> n \<and> n \<le> 90) \<or> (48 \<le> n \<and> n \<le> 57) \<or> n = 39)"

definition toLowerCase :: "string \<Rightarrow> string" where
  "toLowerCase s =
     map (\<lambda>c. let n = (of_char c :: nat) in if 65 \<le> n \<and> n \<le> 90 then char_of (n + 32) else c) s"

function tokenize_from :: "nat \<Rightarrow> string \<Rightarrow> TokenSpan list" where
  "tokenize_from pos [] = []"
| "tokenize_from pos (c # cs) =
     (if is_token_char c
      then (let m = c # takeWhile is_token_char cs
            in \<lparr>start = int pos, endp = int pos + int (length m), token = toLowerCase m\<rparr>
               # tokenize_from (pos + length m) (dropWhile is_token_char cs))
      else tokenize_from (pos + 1) cs)"
  by pat_completeness auto
termination
  by (relation "measure (\<lambda>(pos, cs). length cs)")
     (auto simp: length_dropWhile_le less_Suc_eq_le)

definition tokenizeWithSpans :: "string \<Rightarrow> TokenSpan list" where
  "tokenizeWithSpans text = tokenize_from 0 text"

section \<open>Block matcher\<close>

text \<open>
  \<^verbatim>\<open>findLongestCommonBlock\<close> sweeps the region \<open>[aLo, aHi) \<times> [bLo, bHi)\<close> row by row
  with two rolling arrays \<^verbatim>\<open>prev\<close> and \<^verbatim>\<open>curr\<close> of length \<open>bLen + 1\<close>. The three loops
  of the source are three recursive functions: the loop over \<open>j\<close>, the loop over
  \<open>k\<close> that copies \<^verbatim>\<open>curr\<close> into \<^verbatim>\<open>prev\<close>, and the loop over \<open>i\<close>. The loop state
  is the current row and the best block so far \<open>(bestSize, bestAEnd, bestBEnd)\<close>. The
  rows are only read and written at indices \<open>0 .. bLen\<close>, which lie inside both arrays
  (the row invariant \<open>row_upto\<close> below carries their length).
\<close>

function inner_loop ::
  "'a list \<Rightarrow> 'a list \<Rightarrow> int \<Rightarrow> int \<Rightarrow> int \<Rightarrow> int list \<Rightarrow> int \<Rightarrow>
   int list \<times> int \<times> int \<times> int \<Rightarrow> int list \<times> int \<times> int \<times> int" where
  "inner_loop a b i bLo bHi prev j (curr_row, bestSize, bestAEnd, bestBEnd) =
     (if j < bHi then
        (if js_nth a i = js_nth b j then
           (let val = prev ! nat (j - bLo) + 1;
                curr_row' = curr_row[nat (j - bLo + 1) := val]
            in if val > bestSize
               then inner_loop a b i bLo bHi prev (j + 1) (curr_row', val, i + 1, j + 1)
               else inner_loop a b i bLo bHi prev (j + 1) (curr_row', bestSize, bestAEnd, bestBEnd))
         else inner_loop a b i bLo bHi prev (j + 1) (curr_row, bestSize, bestAEnd, bestBEnd))
      else (curr_row, bestSize, bestAEnd, bestBEnd))"
  by pat_completeness auto
termination
  by (relation "measure (\<lambda>(a, b, i, bLo, bHi, prev, j, s). nat (bHi - j))") auto

function copy_loop :: "int list \<Rightarrow> nat \<Rightarrow> int list \<Rightarrow> int list" where
  "copy_loop curr_row k prev =
     (if k < length curr_row then copy_loop curr_row (k + 1) (prev[k := curr_row ! k]) else prev)"
  by pat_completeness auto
termination
  by (relation "measure (\<lambda>(curr_row, k, prev). length curr_row - k)") auto

function outer_loop ::
  "'a list \<Rightarrow> 'a list \<Rightarrow> int \<Rightarrow> int \<Rightarrow> int \<Rightarrow> int \<Rightarrow>
   int list \<times> int \<times> int \<times> int \<Rightarrow> int list \<times> int \<times> int \<times> int" where
  "outer_loop a b aHi bLo bHi i (prev, bestSize, bestAEnd, bestBEnd) =
     (if i < aHi then
        (case inner_loop a b i bLo bHi prev bLo
                (replicate (nat (bHi - bLo + 1)) 0, bestSize, bestAEnd, bestBEnd) of
           (curr_row, bestSize', bestAEnd', bestBEnd') \<Rightarrow>
             outer_loop a b aHi bLo bHi (i + 1)
               (copy_loop curr_row 0 prev, bestSize', bestAEnd', bestBEnd'))
      else (prev, bestSize, bestAEnd, bestBEnd))"
  by pat_completeness auto
termination
  by (relation "measure (\<lambda>(a, b, aHi, bLo, bHi, i, s). nat (aHi - i))") auto

definition findLongestCommonBlock ::
  "'a list \<Rightarrow> 'a list \<Rightarrow> int \<Rightarrow> int \<Rightarrow> int \<Rightarrow> int \<Rightarrow> MatchBlock" where
  "findLongestCommonBlock a b aLo aHi bLo bHi =
     (let bLen = bHi - bLo in
      if aLo \<ge> aHi \<or> bLo \<ge> bHi \<or> bLen \<le> 0
      then \<lparr>aStart = aLo, bStart = bLo, size_mb = 0\<rparr>
      else (case outer_loop a b aHi bLo bHi aLo (replicate (nat (bLen + 1)) 0, 0, aLo, bLo) of
              (prev, bestSize, bestAEnd, bestBEnd) \<Rightarrow>
                \<lparr>aStart = bestAEnd - bestSize, bStart = bestBEnd - bestSize,
                 size_mb = bestSize\<rparr>))"

text \<open>
  \<^verbatim>\<open>findMatchingBlocks\<close> keeps a stack \<^verbatim>\<open>pending\<close> of regions \<open>(aLo, aHi, bLo, bHi)\<close>;
  the head of the list is the top of the stack (the last element of the array, which
  \<^verbatim>\<open>pop\<close> takes). Nothing in the source bounds the number of iterations, so the loop is
  a partial function: \<open>None\<close> stands for a call that never returns. The result is
  sorted by \<open>aStart\<close> with a stable sort.
\<close>

partial_function (option) fmb_loop ::
  "'a list \<Rightarrow> 'a list \<Rightarrow> int \<Rightarrow> (int \<times> int \<times> int \<times> int) list \<Rightarrow> MatchBlock list
   \<Rightarrow> MatchBlock list option" where
  "fmb_loop a b minMatchWords pending blocks =
     (case pending of
        [] \<Rightarrow> Some blocks
      | (aLo, aHi, bLo, bHi) # rest \<Rightarrow>
          (let best = findLongestCommonBlock a b aLo aHi bLo bHi in
           if size_mb best < minMatchWords
           then fmb_loop a b minMatchWords rest blocks
           else fmb_loop a b minMatchWords
                  ((aStart best + size_mb best, aHi, bStart best + size_mb best, bHi)
                   # (aLo, aStart best, bLo, bStart best) # rest)
                  (blocks @ [best])))"

declare fmb_loop.simps [code]

definition findMatchingBlocks :: "'a list \<Rightarrow> 'a list \<Rightarrow> int \<Rightarrow> MatchBlock list option" where
  "findMatchingBlocks a b minMatchWords =
     map_option (sort_key aStart)
       (fmb_loop a b minMatchWords [(0, int (length a), 0, int (length b))] [])"

section \<open>Range merger\<close>

text \<open>
  \<^verbatim>\<open>mergeRanges\<close> writes to span objects (\<^verbatim>\<open>last.end = ...\<close>), and the first element
  of \<^verbatim>\<open>merged\<close> is an object of the input array, so spans live in a store: a reference
  is an index into a list of spans, a fresh object is appended at the end. The
  function takes the store and the array of references, and returns the array of
  references it built together with the store it left. The array \<^verbatim>\<open>ranges\<close> itself is
  copied before it is sorted and is never written.
\<close>

type_synonym ref = nat

type_synonym store = "TextSpan list"

fun merge_loop :: "ref list \<Rightarrow> ref list \<Rightarrow> store \<Rightarrow> ref list \<times> store" where
  "merge_loop [] merged h = (merged, h)"
| "merge_loop (cur # rest) merged h =
     (let lst = last merged in
      if start (h ! cur) \<le> endp (h ! lst)
      then merge_loop rest merged
             (h[lst := (h ! lst)\<lparr>endp := max (endp (h ! lst)) (endp (h ! cur))\<rparr>])
      else merge_loop rest (merged @ [length h]) (h @ [h ! cur]))"

definition mergeRanges :: "store \<Rightarrow> ref list \<Rightarrow> ref list \<times> store" where
  "mergeRanges h ranges =
     (if ranges = [] then ([], h)
      else (let sorted_refs = sort_key (\<lambda>r. start (h ! r)) ranges
            in merge_loop (tl sorted_refs) [hd sorted_refs] h))"

text \<open>References of an array that point into the store, and the spans behind them.\<close>

definition valid_refs :: "store \<Rightarrow> ref list \<Rightarrow> bool" where
  "valid_refs h refs = list_all (\<lambda>r. r < length h) refs"

definition deref :: "store \<Rightarrow> ref list \<Rightarrow> TextSpan list" where
  "deref h refs = map ((!) h) refs"

section \<open>Span mapper\<close>

text \<open>
  \<^verbatim>\<open>blocksToCharRanges\<close> reads \<^verbatim>\<open>spans[tokenStart].start\<close> and \<^verbatim>\<open>spans[tokenEnd].end\<close>
  after its guard; reading a field of \<^verbatim>\<open>undefined\<close> throws a \<^verbatim>\<open>TypeError\<close>, which is
  the \<open>Inl\<close> result. The spans it pushes are fresh objects, so its call of
  \<^verbatim>\<open>mergeRanges\<close> runs on a store that holds exactly these spans, and the result is
  read back as a list of spans.
\<close>

datatype side = SideA | SideB

datatype error = TypeError

fun btc_loop ::
  "MatchBlock list \<Rightarrow> TokenSpan list \<Rightarrow> side \<Rightarrow> TextSpan list \<Rightarrow> error + TextSpan list" where
  "btc_loop [] spans sd ranges = Inr ranges"
| "btc_loop (block # rest) spans sd ranges =
     (let tokenStart = (if sd = SideA then aStart block else bStart block);
          tokenEnd = tokenStart + size_mb block - 1
      in if tokenStart < 0 \<or> tokenEnd \<ge> int (length spans)
         then btc_loop rest spans sd ranges
         else (case js_nth spans tokenStart of
                 None \<Rightarrow> Inl TypeError
               | Some first \<Rightarrow>
                   (case js_nth spans tokenEnd of
                      None \<Rightarrow> Inl TypeError
                    | Some lst \<Rightarrow>
                        btc_loop rest spans sd
                          (ranges @ [\<lparr>start = start first, endp = endp lst\<rparr>]))))"

definition mergeRanges_fresh :: "TextSpan list \<Rightarrow> TextSpan list" where
  "mergeRanges_fresh ranges =
     (case mergeRanges ranges [0..<length ranges] of (merged, h') \<Rightarrow> deref h' merged)"

definition blocksToCharRanges ::
  "MatchBlock list \<Rightarrow> TokenSpan list \<Rightarrow> side \<Rightarrow> error + TextSpan list" where
  "blocksToCharRanges blocks spans sd =
     (case btc_loop blocks spans sd [] of
        Inl e \<Rightarrow> Inl e
      | Inr ranges \<Rightarrow> Inr (mergeRanges_fresh ranges))"

section \<open>Highlight renderer\<close>

text \<open>
  \<^verbatim>\<open>String.prototype.slice(s, e)\<close>: a negative argument counts from the end of the
  string, both arguments are clamped to \<open>[0, length]\<close>, and the result is empty when the
  clamped start is not before the clamped end. \<^verbatim>\<open>slice(s)\<close> runs to the end of the text.
\<close>

definition slice :: "'c list \<Rightarrow> int \<Rightarrow> int \<Rightarrow> 'c list" where
  "slice xs s e =
     (let n = int (length xs);
          from = (if s < 0 then max (n + s) 0 else min s n);
          to = (if e < 0 then max (n + e) 0 else min e n)
      in take (nat (to - from)) (drop (nat from) xs))"

definition slice_from :: "'c list \<Rightarrow> int \<Rightarrow> 'c list" where
  "slice_from xs s = slice xs s (int (length xs))"

text \<open>
  The nodes that \<^verbatim>\<open>highlightByRanges\<close> pushes: a \<^verbatim>\<open>React.Fragment\<close> holding plain text
  or a \<^verbatim>\<open>mark\<close> element holding highlighted text. The function returns the raw text when
  there is no range, and the array of nodes otherwise. \<open>highlight_loop\<close> is the body of
  \<^verbatim>\<open>ranges.forEach\<close>, threading \<^verbatim>\<open>cursor\<close> and \<^verbatim>\<open>nodes\<close>.
\<close>

datatype 'c node = Fragment "'c list" | Mark "'c list"

datatype 'c rendered = RawText "'c list" | Nodes "'c node list"

fun highlight_loop :: "'c list \<Rightarrow> TextSpan list \<Rightarrow> int \<Rightarrow> 'c node list \<Rightarrow> int \<times> 'c node list" where
  "highlight_loop text [] cursor nodes = (cursor, nodes)"
| "highlight_loop text (rng # rest) cursor nodes =
     (let nodes1 = (if start rng > cursor
                    then nodes @ [Fragment (slice text cursor (start rng))]
                    else nodes);
          nodes2 = nodes1 @ [Mark (slice text (start rng) (endp rng))]
      in highlight_loop text rest (endp rng) nodes2)"

definition highlightByRanges :: "'c list \<Rightarrow> TextSpan list \<Rightarrow> 'c rendered" where
  "highlightByRanges text ranges =
     (if ranges = [] then RawText text
      else (case highlight_loop text ranges 0 [] of
              (cursor, nodes) \<Rightarrow>
                Nodes (if cursor < int (length text)
                       then nodes @ [Fragment (slice_from text cursor)]
                       else nodes)))"

fun node_text :: "'c node \<Rightarrow> 'c list" where
  "node_text (Fragment t) = t"
| "node_text (Mark t) = t"

fun rendered_text :: "'c rendered \<Rightarrow> 'c list" where
  "rendered_text (RawText t) = t"
| "rendered_text (Nodes ns) = concat (map node_text ns)"

section \<open>The overlap computation of the panel\<close>

text \<open>
  The memoised \<^verbatim>\<open>overlapRanges\<close> of the component: both texts are tokenized, the
  blocks are matched with a minimum of 3 words, and each side is mapped to merged
  character ranges. \<open>None\<close> is a computation that does not return, \<open>Some (Inl e)\<close> one
  that throws.
\<close>

definition overlapRanges ::
  "string \<Rightarrow> string \<Rightarrow> (error + TextSpan list \<times> TextSpan list) option" where
  "overlapRanges finalHumanSubmission totalAiOutput =
     (let humanSpans = tokenizeWithSpans finalHumanSubmission;
          aiSpans = tokenizeWithSpans totalAiOutput;
          humanTokens = map token humanSpans;
          aiTokens = map token aiSpans
      in (case findMatchingBlocks humanTokens aiTokens 3 of
            None \<Rightarrow> None
          | Some blocks \<Rightarrow>
              Some (case blocksToCharRanges blocks humanSpans SideA of
                      Inl e \<Rightarrow> Inl e
                    | Inr human \<Rightarrow>
                        (case blocksToCharRanges blocks aiSpans SideB of
                           Inl e \<Rightarrow> Inl e
                         | Inr ai \<Rightarrow> Inr (human, ai)))))"

section \<open>Vocabulary of the properties\<close>

subsection \<open>Common blocks\<close>

text \<open>
  \<open>csuf a b aLo bLo i j\<close> is the length of the longest run of equal tokens that ends at
  \<open>(i, j)\<close> and stays inside the region that starts at \<open>(aLo, bLo)\<close>: the table \<open>L\<close> of
  the sweep. \<open>seen \<dots> i j i' j'\<close> says that the cell \<open>(i', j')\<close> of the region comes before
  \<open>(i, j)\<close> in the row-major sweep. \<open>best_ok\<close> is the invariant of the best block:
  it is the largest value among the cells seen, at the first cell that has it.
  \<open>row_upto\<close> is the invariant of a rolling array filled up to column \<open>j\<close>.
\<close>

function csuf :: "'a list \<Rightarrow> 'a list \<Rightarrow> int \<Rightarrow> int \<Rightarrow> int \<Rightarrow> int \<Rightarrow> int" where
  "csuf a b aLo bLo i j =
     (if i < aLo \<or> j < bLo then 0
      else if js_nth a i = js_nth b j then csuf a b aLo bLo (i - 1) (j - 1) + 1
      else 0)"
  by pat_completeness auto
termination
  by (relation "measure (\<lambda>(a, b, aLo, bLo, i, j). nat (i - aLo + 1))") auto

declare csuf.simps [simp del]

definition seen :: "int \<Rightarrow> int \<Rightarrow> int \<Rightarrow> int \<Rightarrow> int \<Rightarrow> int \<Rightarrow> int \<Rightarrow> bool" where
  "seen aLo bLo bHi i j i' j' =
     (aLo \<le> i' \<and> bLo \<le> j' \<and> j' < bHi \<and> (i' < i \<or> (i' = i \<and> j' < j)))"

definition best_ok ::
  "'a list \<Rightarrow> 'a list \<Rightarrow> int \<Rightarrow> int \<Rightarrow> int \<Rightarrow> int \<Rightarrow> int \<Rightarrow> int \<Rightarrow> int \<Rightarrow> int \<Rightarrow> bool" where
  "best_ok a b aLo bLo bHi i j bestSize bestAEnd bestBEnd =
     (0 \<le> bestSize
      \<and> (\<forall>i' j'. seen aLo bLo bHi i j i' j' \<longrightarrow> csuf a b aLo bLo i' j' \<le> bestSize)
      \<and> (if bestSize = 0 then bestAEnd = aLo \<and> bestBEnd = bLo
         else seen aLo bLo bHi i j (bestAEnd - 1) (bestBEnd - 1)
              \<and> csuf a b aLo bLo (bestAEnd - 1) (bestBEnd - 1) = bestSize
              \<and> (\<forall>i' j'. seen aLo bLo bHi (bestAEnd - 1) (bestBEnd - 1) i' j'
                    \<longrightarrow> csuf a b aLo bLo i' j' < bestSize)))"

definition row_upto ::
  "'a list \<Rightarrow> 'a list \<Rightarrow> int \<Rightarrow> int \<Rightarrow> int \<Rightarrow> int \<Rightarrow> int \<Rightarrow> int list \<Rightarrow> bool" where
  "row_upto a b aLo bLo bHi i j row =
     (length row = nat (bHi - bLo + 1)
      \<and> (\<forall>j'. bLo - 1 \<le> j' \<and> j' < j \<longrightarrow> row ! nat (j' - bLo + 1) = csuf a b aLo bLo i j')
      \<and> (\<forall>j'. j \<le> j' \<and> j' < bHi \<longrightarrow> row ! nat (j' - bLo + 1) = 0))"

text \<open>
  A common block of size \<open>n\<close> at \<open>(s, t)\<close> inside a region: \<open>n\<close> equal tokens, at
  \<open>a[s + k]\<close> and \<open>b[t + k]\<close>. \<open>js_run\<close> is the same run with the reads as the code makes
  them.
\<close>

definition common_block ::
  "'a list \<Rightarrow> 'a list \<Rightarrow> int \<Rightarrow> int \<Rightarrow> int \<Rightarrow> int \<Rightarrow> int \<Rightarrow> int \<Rightarrow> int \<Rightarrow> bool" where
  "common_block a b aLo aHi bLo bHi s t n =
     (0 \<le> n \<and> aLo \<le> s \<and> s + n \<le> aHi \<and> bLo \<le> t \<and> t + n \<le> bHi
      \<and> list_all (\<lambda>k. a ! nat (s + k) = b ! nat (t + k)) [0..n - 1])"

definition js_run :: "'a list \<Rightarrow> 'a list \<Rightarrow> int \<Rightarrow> int \<Rightarrow> int \<Rightarrow> bool" where
  "js_run a b s t n = (\<forall>k. 0 \<le> k \<and> k < n \<longrightarrow> js_nth a (s + k) = js_nth b (t + k))"

subsection \<open>Regions and blocks of the work list\<close>

text \<open>
  A region is well formed when it lies inside both sequences. Two regions are apart
  when one lies wholly before the other in both sequences. A block is right for
  \<open>a\<close>, \<open>b\<close> and the threshold \<open>m\<close> when it has at least \<open>m\<close> tokens and is a common
  block of the two sequences. \<open>work\<close> is the measure that decreases in each iteration
  of the work list.
\<close>

type_synonym region = "int \<times> int \<times> int \<times> int"

definition region_ok :: "'a list \<Rightarrow> 'a list \<Rightarrow> region \<Rightarrow> bool" where
  "region_ok a b R =
     (case R of (aLo, aHi, bLo, bHi) \<Rightarrow>
        0 \<le> aLo \<and> aLo \<le> aHi \<and> aHi \<le> int (length a)
        \<and> 0 \<le> bLo \<and> bLo \<le> bHi \<and> bHi \<le> int (length b))"

definition block_region :: "MatchBlock \<Rightarrow> region" where
  "block_region blk =
     (aStart blk, aStart blk + size_mb blk, bStart blk, bStart blk + size_mb blk)"

definition apart :: "region \<Rightarrow> region \<Rightarrow> bool" where
  "apart R S =
     (case R of (aLo, aHi, bLo, bHi) \<Rightarrow>
        (case S of (aLo', aHi', bLo', bHi') \<Rightarrow>
           (aHi \<le> aLo' \<and> bHi \<le> bLo') \<or> (aHi' \<le> aLo \<and> bHi' \<le> bLo)))"

definition within :: "region \<Rightarrow> region \<Rightarrow> bool" where
  "within R' R =
     (case R' of (aLo', aHi', bLo', bHi') \<Rightarrow>
        (case R of (aLo, aHi, bLo, bHi) \<Rightarrow>
           aLo \<le> aLo' \<and> aHi' \<le> aHi \<and> bLo \<le> bLo' \<and> bHi' \<le> bHi))"

definition block_ok :: "'a list \<Rightarrow> 'a list \<Rightarrow> int \<Rightarrow> MatchBlock \<Rightarrow> bool" where
  "block_ok a b m blk =
     (m \<le> size_mb blk
      \<and> common_block a b 0 (int (length a)) 0 (int (length b))
           (aStart blk) (bStart blk) (size_mb blk))"

definition blocks_apart :: "MatchBlock list \<Rightarrow> bool" where
  "blocks_apart blocks = sorted_wrt (\<lambda>x y. apart (block_region x) (block_region y)) blocks"

definition fmb_inv ::
  "'a list \<Rightarrow> 'a list \<Rightarrow> int \<Rightarrow> region list \<Rightarrow> MatchBlock list \<Rightarrow> bool" where
  "fmb_inv a b m pending blocks =
     (list_all (region_ok a b) pending \<and> list_all (block_ok a b m) blocks
      \<and> blocks_apart blocks \<and> sorted_wrt apart pending
      \<and> list_all (\<lambda>blk. list_all (apart (block_region blk)) pending) blocks)"

fun work :: "region list \<Rightarrow> nat" where
  "work [] = 0"
| "work ((aLo, aHi, bLo, bHi) # rest) = 2 * nat (aHi - aLo) + 1 + work rest"

subsection \<open>Merged ranges\<close>

text \<open>
  The merge as the specification words it, on values: keep a current span; a next span
  with \<open>start \<le> current end\<close> extends the current span to the larger end, any other next
  span emits the current one and becomes current. \<open>spec_mergeRanges\<close> sorts by start
  and folds.
\<close>

fun merge_fold :: "TextSpan \<Rightarrow> TextSpan list \<Rightarrow> TextSpan list" where
  "merge_fold cur [] = [cur]"
| "merge_fold cur (nxt # rest) =
     (if start nxt \<le> endp cur
      then merge_fold (cur\<lparr>endp := max (endp cur) (endp nxt)\<rparr>) rest
      else cur # merge_fold nxt rest)"

definition spec_mergeRanges :: "TextSpan list \<Rightarrow> TextSpan list" where
  "spec_mergeRanges spans =
     (case sort_key start spans of [] \<Rightarrow> [] | x # xs \<Rightarrow> merge_fold x xs)"

definition strict_gap :: "TextSpan \<Rightarrow> TextSpan \<Rightarrow> bool" where
  "strict_gap r s = (endp r < start s)"

text \<open>
  The invariant of the loop of \<^verbatim>\<open>mergeRanges\<close> on the store: \<open>h0\<close> is the store at the
  call, \<open>x0\<close> the first reference after sorting (the only object of the input that is
  ever written), \<open>pre @ [l]\<close> the array \<^verbatim>\<open>merged\<close>, and \<open>rest\<close> the references still to
  be read.
\<close>

definition merge_inv ::
  "store \<Rightarrow> ref \<Rightarrow> store \<Rightarrow> ref list \<Rightarrow> ref \<Rightarrow> ref list \<Rightarrow> bool" where
  "merge_inv h0 x0 h pre l rest =
     (list_all (\<lambda>r. r < length h0) rest \<and> x0 < length h0 \<and> length h0 \<le> length h
      \<and> (\<forall>r < length h0. r \<noteq> x0 \<longrightarrow> h ! r = h0 ! r)
      \<and> distinct (pre @ [l]) \<and> list_all (\<lambda>r. r < length h) (pre @ [l])
      \<and> (l = x0 \<or> length h0 \<le> l)
      \<and> sorted (map (\<lambda>r. start (h0 ! r)) (x0 # rest))
      \<and> start (h ! x0) = start (h0 ! x0) \<and> endp (h0 ! x0) \<le> endp (h ! x0)
      \<and> (x0 \<in> set rest \<longrightarrow> h ! x0 = h0 ! x0 \<or> (l = x0 \<and> start (h ! x0) \<le> endp (h ! x0))))"

subsection \<open>Blocks mapped to character spans\<close>

definition token_start :: "side \<Rightarrow> MatchBlock \<Rightarrow> int" where
  "token_start sd block = (if sd = SideA then aStart block else bStart block)"

definition block_in_bounds :: "TokenSpan list \<Rightarrow> side \<Rightarrow> MatchBlock \<Rightarrow> bool" where
  "block_in_bounds spans sd block =
     (0 \<le> token_start sd block \<and> token_start sd block + size_mb block \<le> int (length spans))"

definition block_span :: "TokenSpan list \<Rightarrow> side \<Rightarrow> MatchBlock \<Rightarrow> TextSpan" where
  "block_span spans sd block =
     \<lparr>start = start (spans ! nat (token_start sd block)),
      endp = endp (spans ! nat (token_start sd block + size_mb block - 1))\<rparr>"

subsection \<open>Ranges of a text\<close>

text \<open>
  A range list the renderer is meant for: every range lies in the text with
  \<open>start \<le> end\<close>, and every range ends no later than each later range starts (so
  the list is sorted by start and no two ranges overlap).
\<close>

definition ranges_in_text :: "'c list \<Rightarrow> TextSpan list \<Rightarrow> bool" where
  "ranges_in_text text ranges =
     (list_all (\<lambda>r. 0 \<le> start r \<and> start r \<le> endp r \<and> endp r \<le> int (length text)) ranges
      \<and> sorted_wrt (\<lambda>r s. endp r \<le> start s) ranges)"

section \<open>The sweep of findLongestCommonBlock\<close>

lemma csuf_outside: "i < aLo \<or> j < bLo \<Longrightarrow> csuf a b aLo bLo i j = 0"
  by (subst csuf.simps) simp

lemma csuf_differ:
  "js_nth a i \<noteq> js_nth b j \<Longrightarrow> csuf a b aLo bLo i j = 0"
  by (subst csuf.simps) simp

lemma csuf_step:
  "aLo \<le> i \<Longrightarrow> bLo \<le> j \<Longrightarrow> js_nth a i = js_nth b j \<Longrightarrow>
   csuf a b aLo bLo i j = csuf a b aLo bLo (i - 1) (j - 1) + 1"
  by (subst csuf.simps) simp

lemma csuf_nonneg: "0 \<le> csuf a b aLo bLo i j"
proof (induction a b aLo bLo i j rule: csuf.induct)
  case (1 a b aLo bLo i j)
  show ?case
  proof (cases "\<not> (i < aLo \<or> j < bLo) \<and> js_nth a i = js_nth b j")
    case True
    then show ?thesis using "1.IH" csuf_step [of aLo i bLo j a b] by simp
  next
    case False
    then show ?thesis
      using csuf_outside [of i aLo j bLo a b] csuf_differ [of a i b j aLo bLo] by auto
  qed
qed

lemma csuf_bound:
  "aLo - 1 \<le> i \<Longrightarrow> bLo - 1 \<le> j \<Longrightarrow>
   csuf a b aLo bLo i j \<le> i - aLo + 1 \<and> csuf a b aLo bLo i j \<le> j - bLo + 1"
proof (induction a b aLo bLo i j rule: csuf.induct)
  case (1 a b aLo bLo i j)
  show ?case
  proof (cases "\<not> (i < aLo \<or> j < bLo) \<and> js_nth a i = js_nth b j")
    case True
    then show ?thesis using "1.IH" csuf_step [of aLo i bLo j a b] by simp
  next
    case False
    then show ?thesis
      using csuf_outside [of i aLo j bLo a b] csuf_differ [of a i b j aLo bLo] "1.prems"
      by auto
  qed
qed

lemma csuf_match:
  "0 \<le> k \<Longrightarrow> k < csuf a b aLo bLo i j \<Longrightarrow> js_nth a (i - k) = js_nth b (j - k)"
proof (induction a b aLo bLo i j arbitrary: k rule: csuf.induct)
  case (1 a b aLo bLo i j)
  have pos: "0 < csuf a b aLo bLo i j" using "1.prems" by simp
  have in_region: "\<not> (i < aLo \<or> j < bLo)"
    using pos csuf_outside [of i aLo j bLo a b] by auto
  have m: "js_nth a i = js_nth b j"
    using pos csuf_differ [of a i b j aLo bLo] by auto
  have unfold: "csuf a b aLo bLo i j = csuf a b aLo bLo (i - 1) (j - 1) + 1"
    using in_region m by (simp add: csuf_step)
  show ?case
  proof (cases "k = 0")
    case True
    then show ?thesis using m by simp
  next
    case False
    then have "0 \<le> k - 1" "k - 1 < csuf a b aLo bLo (i - 1) (j - 1)"
      using "1.prems" unfold by simp_all
    from "1.IH" [OF in_region m this]
    show ?thesis by (simp add: algebra_simps)
  qed
qed

lemma csuf_max:
  "0 \<le> n \<Longrightarrow> n \<le> i - aLo + 1 \<Longrightarrow> n \<le> j - bLo + 1 \<Longrightarrow>
   (\<forall>k. 0 \<le> k \<and> k < n \<longrightarrow> js_nth a (i - k) = js_nth b (j - k)) \<Longrightarrow>
   n \<le> csuf a b aLo bLo i j"
proof (induction a b aLo bLo i j arbitrary: n rule: csuf.induct)
  case (1 a b aLo bLo i j)
  show ?case
  proof (cases "n = 0")
    case True
    then show ?thesis using csuf_nonneg [of a b aLo bLo i j] by simp
  next
    case False
    then have pos: "0 < n" using "1.prems"(1) by simp
    have in_region: "\<not> (i < aLo \<or> j < bLo)" using pos "1.prems"(2,3) by auto
    have m: "js_nth a i = js_nth b j" using "1.prems"(4) pos by force
    have unfold: "csuf a b aLo bLo i j = csuf a b aLo bLo (i - 1) (j - 1) + 1"
      using in_region m by (simp add: csuf_step)
    have shifted: "\<forall>k. 0 \<le> k \<and> k < n - 1 \<longrightarrow> js_nth a (i - 1 - k) = js_nth b (j - 1 - k)"
    proof (intro allI impI)
      fix k assume "0 \<le> k \<and> k < n - 1"
      then have "js_nth a (i - (k + 1)) = js_nth b (j - (k + 1))"
        using "1.prems"(4) by simp
      then show "js_nth a (i - 1 - k) = js_nth b (j - 1 - k)" by (simp add: algebra_simps)
    qed
    have "n - 1 \<le> csuf a b aLo bLo (i - 1) (j - 1)"
      using "1.prems"(2,3) pos by (intro "1.IH" [OF in_region m _ _ _ shifted]) simp_all
    then show ?thesis using unfold by simp
  qed
qed

lemma seen_next:
  "aLo \<le> i \<Longrightarrow> bLo \<le> j \<Longrightarrow> j < bHi \<Longrightarrow>
   seen aLo bLo bHi i (j + 1) i' j' = (seen aLo bLo bHi i j i' j' \<or> (i' = i \<and> j' = j))"
  by (auto simp: seen_def)

lemma seen_row_end: "seen aLo bLo bHi i bHi i' j' = seen aLo bLo bHi (i + 1) bLo i' j'"
  by (auto simp: seen_def)

lemma best_step_keep:
  assumes "best_ok a b aLo bLo bHi i j bestSize bestAEnd bestBEnd"
    and "aLo \<le> i" "bLo \<le> j" "j < bHi" "csuf a b aLo bLo i j \<le> bestSize"
  shows "best_ok a b aLo bLo bHi i (j + 1) bestSize bestAEnd bestBEnd"
  using assms unfolding best_ok_def by (auto simp: seen_next)

lemma best_step_new:
  assumes "best_ok a b aLo bLo bHi i j bestSize bestAEnd bestBEnd"
    and "aLo \<le> i" "bLo \<le> j" "j < bHi" "bestSize < csuf a b aLo bLo i j"
  shows "best_ok a b aLo bLo bHi i (j + 1) (csuf a b aLo bLo i j) (i + 1) (j + 1)"
proof -
  have le: "\<forall>i' j'. seen aLo bLo bHi i j i' j' \<longrightarrow> csuf a b aLo bLo i' j' \<le> bestSize"
    and nn: "0 \<le> bestSize"
    using assms(1) unfolding best_ok_def by blast+
  have lt: "csuf a b aLo bLo i' j' < csuf a b aLo bLo i j"
    if "seen aLo bLo bHi i j i' j'" for i' j'
    using le that assms(5) by fastforce
  have here: "seen aLo bLo bHi i (j + 1) i j" using assms(2-4) by (simp add: seen_def)
  have pos: "csuf a b aLo bLo i j \<noteq> 0" "0 \<le> csuf a b aLo bLo i j"
    using nn assms(5) by simp_all
  have all: "\<forall>i' j'. seen aLo bLo bHi i (j + 1) i' j'
               \<longrightarrow> csuf a b aLo bLo i' j' \<le> csuf a b aLo bLo i j"
    using lt assms(2-4) by (auto simp: seen_next less_imp_le)
  have first: "\<forall>i' j'. seen aLo bLo bHi (i + 1 - 1) (j + 1 - 1) i' j'
               \<longrightarrow> csuf a b aLo bLo i' j' < csuf a b aLo bLo i j"
    using lt by simp
  show ?thesis
    unfolding best_ok_def using pos all first here by simp
qed

lemma row_step_match:
  assumes "row_upto a b aLo bLo bHi (i - 1) bHi prev"
    and "row_upto a b aLo bLo bHi i j curr_row"
    and "aLo \<le> i" "bLo \<le> j" "j < bHi" "js_nth a i = js_nth b j"
  shows "prev ! nat (j - bLo) + 1 = csuf a b aLo bLo i j"
    and "row_upto a b aLo bLo bHi i (j + 1)
           (curr_row[nat (j - bLo + 1) := csuf a b aLo bLo i j])"
proof -
  have "\<forall>j'. bLo - 1 \<le> j' \<and> j' < bHi \<longrightarrow>
          prev ! nat (j' - bLo + 1) = csuf a b aLo bLo (i - 1) j'"
    using assms(1) unfolding row_upto_def by blast
  from this [rule_format, of "j - 1"]
  have "prev ! nat ((j - 1) - bLo + 1) = csuf a b aLo bLo (i - 1) (j - 1)"
    using assms(4,5) by simp
  moreover have "nat ((j - 1) - bLo + 1) = nat (j - bLo)" by simp
  ultimately show "prev ! nat (j - bLo) + 1 = csuf a b aLo bLo i j"
    using csuf_step [OF assms(3,4,6)] by simp
  have len: "length curr_row = nat (bHi - bLo + 1)"
    and before: "\<forall>j'. bLo - 1 \<le> j' \<and> j' < j \<longrightarrow>
                  curr_row ! nat (j' - bLo + 1) = csuf a b aLo bLo i j'"
    and after: "\<forall>j'. j \<le> j' \<and> j' < bHi \<longrightarrow> curr_row ! nat (j' - bLo + 1) = 0"
    using assms(2) unfolding row_upto_def by blast+
  show "row_upto a b aLo bLo bHi i (j + 1)
          (curr_row[nat (j - bLo + 1) := csuf a b aLo bLo i j])"
    unfolding row_upto_def
  proof (intro conjI allI impI)
    show "length (curr_row[nat (j - bLo + 1) := csuf a b aLo bLo i j]) = nat (bHi - bLo + 1)"
      using len by simp
  next
    fix j' assume h: "bLo - 1 \<le> j' \<and> j' < j + 1"
    show "curr_row[nat (j - bLo + 1) := csuf a b aLo bLo i j] ! nat (j' - bLo + 1)
          = csuf a b aLo bLo i j'"
    proof (cases "j' = j")
      case True
      then show ?thesis using len assms(4,5) by simp
    next
      case False
      then have "nat (j - bLo + 1) \<noteq> nat (j' - bLo + 1)" using h assms(4) by auto
      then show ?thesis using before h False by simp
    qed
  next
    fix j' assume h: "j + 1 \<le> j' \<and> j' < bHi"
    then have "nat (j - bLo + 1) \<noteq> nat (j' - bLo + 1)" using assms(4) by auto
    then show "curr_row[nat (j - bLo + 1) := csuf a b aLo bLo i j] ! nat (j' - bLo + 1) = 0"
      using after h by simp
  qed
qed

lemma row_step_differ:
  assumes "row_upto a b aLo bLo bHi i j curr_row"
    and "bLo \<le> j" "j < bHi" "js_nth a i \<noteq> js_nth b j"
  shows "row_upto a b aLo bLo bHi i (j + 1) curr_row"
  unfolding row_upto_def
proof (intro conjI allI impI)
  show "length curr_row = nat (bHi - bLo + 1)" using assms(1) unfolding row_upto_def by blast
next
  fix j' assume h: "bLo - 1 \<le> j' \<and> j' < j + 1"
  show "curr_row ! nat (j' - bLo + 1) = csuf a b aLo bLo i j'"
  proof (cases "j' = j")
    case True
    then show ?thesis
      using assms(1,3) csuf_differ [OF assms(4), of aLo bLo] unfolding row_upto_def by auto
  next
    case False
    then show ?thesis using assms(1) h unfolding row_upto_def by auto
  qed
next
  fix j' assume "j + 1 \<le> j' \<and> j' < bHi"
  then show "curr_row ! nat (j' - bLo + 1) = 0" using assms(1) unfolding row_upto_def by auto
qed

lemma inner_loop_correct:
  assumes "row_upto a b aLo bLo bHi (i - 1) bHi prev"
    and "row_upto a b aLo bLo bHi i j curr_row"
    and "best_ok a b aLo bLo bHi i j bestSize bestAEnd bestBEnd"
    and "aLo \<le> i" "bLo \<le> j" "j \<le> bHi"
    and "inner_loop a b i bLo bHi prev j (curr_row, bestSize, bestAEnd, bestBEnd)
         = (row', size', aEnd', bEnd')"
  shows "row_upto a b aLo bLo bHi i bHi row' \<and> best_ok a b aLo bLo bHi i bHi size' aEnd' bEnd'"
  using assms
proof (induction "nat (bHi - j)" arbitrary: j curr_row bestSize bestAEnd bestBEnd)
  case 0
  then have "j = bHi" by simp
  with "0.prems" show ?case by simp
next
  case (Suc n)
  then have lt: "j < bHi" by simp
  have n: "n = nat (bHi - (j + 1))" using Suc.hyps(2) by simp
  have bounds: "bLo \<le> j + 1" "j + 1 \<le> bHi" using Suc.prems(5) lt by simp_all
  show ?case
  proof (cases "js_nth a i = js_nth b j")
    case differ: False
    have run: "inner_loop a b i bLo bHi prev (j + 1) (curr_row, bestSize, bestAEnd, bestBEnd)
               = (row', size', aEnd', bEnd')"
      using Suc.prems(7) lt differ by simp
    have row: "row_upto a b aLo bLo bHi i (j + 1) curr_row"
      by (rule row_step_differ [OF Suc.prems(2,5) lt differ])
    have "csuf a b aLo bLo i j \<le> bestSize"
      using csuf_differ [OF differ, of aLo bLo] Suc.prems(3) unfolding best_ok_def by simp
    then have best: "best_ok a b aLo bLo bHi i (j + 1) bestSize bestAEnd bestBEnd"
      by (rule best_step_keep [OF Suc.prems(3,4,5) lt])
    show ?thesis
      by (rule Suc.hyps(1) [OF n Suc.prems(1) row best Suc.prems(4) bounds run])
  next
    case same: True
    let ?v = "csuf a b aLo bLo i j"
    let ?row = "curr_row[nat (j - bLo + 1) := ?v]"
    have val: "prev ! nat (j - bLo) + 1 = ?v"
      by (rule row_step_match(1) [OF Suc.prems(1,2,4,5) lt same])
    have row: "row_upto a b aLo bLo bHi i (j + 1) ?row"
      by (rule row_step_match(2) [OF Suc.prems(1,2,4,5) lt same])
    show ?thesis
    proof (cases "?v > bestSize")
      case True
      have run: "inner_loop a b i bLo bHi prev (j + 1) (?row, ?v, i + 1, j + 1)
                 = (row', size', aEnd', bEnd')"
        using Suc.prems(7) lt same val True by (simp add: Let_def)
      have best: "best_ok a b aLo bLo bHi i (j + 1) ?v (i + 1) (j + 1)"
        by (rule best_step_new [OF Suc.prems(3,4,5) lt True])
      show ?thesis
        by (rule Suc.hyps(1) [OF n Suc.prems(1) row best Suc.prems(4) bounds run])
    next
      case False
      have run: "inner_loop a b i bLo bHi prev (j + 1) (?row, bestSize, bestAEnd, bestBEnd)
                 = (row', size', aEnd', bEnd')"
        using Suc.prems(7) lt same val False by (simp add: Let_def)
      have "?v \<le> bestSize" using False by simp
      then have best: "best_ok a b aLo bLo bHi i (j + 1) bestSize bestAEnd bestBEnd"
        by (rule best_step_keep [OF Suc.prems(3,4,5) lt])
      show ?thesis
        by (rule Suc.hyps(1) [OF n Suc.prems(1) row best Suc.prems(4) bounds run])
    qed
  qed
qed

declare inner_loop.simps [simp del] outer_loop.simps [simp del] copy_loop.simps [simp del]

lemma copy_loop_copies:
  "length prev = length curr_row \<Longrightarrow> take k prev = take k curr_row \<Longrightarrow>
   copy_loop curr_row k prev = curr_row"
proof (induction "length curr_row - k" arbitrary: k prev)
  case 0
  then have "\<not> k < length curr_row" by simp
  with "0.prems" show ?case by (subst copy_loop.simps) simp
next
  case (Suc n)
  then have lt: "k < length curr_row" by simp
  have n: "n = length curr_row - (k + 1)" using Suc.hyps(2) by simp
  have len: "length (prev[k := curr_row ! k]) = length curr_row" using Suc.prems(1) by simp
  have tk: "take (k + 1) (prev[k := curr_row ! k]) = take (k + 1) curr_row"
    using Suc.prems lt by (simp add: take_Suc_conv_app_nth)
  have "copy_loop curr_row (k + 1) (prev[k := curr_row ! k]) = curr_row"
    by (rule Suc.hyps(1) [OF n len tk])
  then show ?case using lt by (subst copy_loop.simps) simp
qed

lemma best_row_end:
  "best_ok a b aLo bLo bHi i bHi bestSize bestAEnd bestBEnd
   = best_ok a b aLo bLo bHi (i + 1) bLo bestSize bestAEnd bestBEnd"
  by (simp add: best_ok_def seen_row_end)

lemma row_zero:
  assumes "bLo \<le> bHi"
  shows "row_upto a b aLo bLo bHi i bLo (replicate (nat (bHi - bLo + 1)) 0)"
  unfolding row_upto_def
proof (intro conjI allI impI)
  show "length (replicate (nat (bHi - bLo + 1)) (0::int)) = nat (bHi - bLo + 1)" by simp
next
  fix j' assume h: "bLo - 1 \<le> j' \<and> j' < bLo"
  then have "csuf a b aLo bLo i j' = 0" by (simp add: csuf_outside)
  moreover have "replicate (nat (bHi - bLo + 1)) (0::int) ! nat (j' - bLo + 1) = 0"
    using h assms by simp
  ultimately show "replicate (nat (bHi - bLo + 1)) 0 ! nat (j' - bLo + 1)
                   = csuf a b aLo bLo i j'" by simp
next
  fix j' assume "bLo \<le> j' \<and> j' < bHi"
  then show "replicate (nat (bHi - bLo + 1)) (0::int) ! nat (j' - bLo + 1) = 0" by simp
qed

lemma row_before_region:
  assumes "bLo \<le> bHi"
  shows "row_upto a b aLo bLo bHi (aLo - 1) bHi (replicate (nat (bHi - bLo + 1)) 0)"
  unfolding row_upto_def
proof (intro conjI allI impI)
  show "length (replicate (nat (bHi - bLo + 1)) (0::int)) = nat (bHi - bLo + 1)" by simp
next
  fix j' assume h: "bLo - 1 \<le> j' \<and> j' < bHi"
  have "csuf a b aLo bLo (aLo - 1) j' = 0" by (simp add: csuf_outside)
  moreover have "replicate (nat (bHi - bLo + 1)) (0::int) ! nat (j' - bLo + 1) = 0"
    using h by simp
  ultimately show "replicate (nat (bHi - bLo + 1)) 0 ! nat (j' - bLo + 1)
                   = csuf a b aLo bLo (aLo - 1) j'" by simp
next
  fix j' assume "bHi \<le> j' \<and> j' < bHi"
  then show "replicate (nat (bHi - bLo + 1)) (0::int) ! nat (j' - bLo + 1) = 0" by simp
qed

lemma outer_loop_correct:
  assumes "row_upto a b aLo bLo bHi (i - 1) bHi prev"
    and "best_ok a b aLo bLo bHi i bLo bestSize bestAEnd bestBEnd"
    and "aLo \<le> i" "i \<le> aHi" "bLo \<le> bHi"
    and "outer_loop a b aHi bLo bHi i (prev, bestSize, bestAEnd, bestBEnd)
         = (prev', size', aEnd', bEnd')"
  shows "best_ok a b aLo bLo bHi aHi bLo size' aEnd' bEnd'"
  using assms
proof (induction "nat (aHi - i)" arbitrary: i prev bestSize bestAEnd bestBEnd)
  case 0
  then have "\<not> i < aHi" by simp
  then have "outer_loop a b aHi bLo bHi i (prev, bestSize, bestAEnd, bestBEnd)
             = (prev, bestSize, bestAEnd, bestBEnd)"
    by (subst outer_loop.simps) simp
  moreover have "i = aHi" using "0.hyps" "0.prems"(4) by simp
  ultimately show ?case using "0.prems"(2,6) by simp
next
  case (Suc n)
  then have lt: "i < aHi" by simp
  have n: "n = nat (aHi - (i + 1))" using Suc.hyps(2) by simp
  obtain curr_row s1 ae1 be1 where
    inner: "inner_loop a b i bLo bHi prev bLo
              (replicate (nat (bHi - bLo + 1)) 0, bestSize, bestAEnd, bestBEnd)
            = (curr_row, s1, ae1, be1)"
    using prod_cases4 by blast
  have after: "row_upto a b aLo bLo bHi i bHi curr_row
               \<and> best_ok a b aLo bLo bHi i bHi s1 ae1 be1"
    by (rule inner_loop_correct [OF Suc.prems(1) row_zero [OF Suc.prems(5)] Suc.prems(2,3)
          order_refl Suc.prems(5) inner])
  have "length prev = length curr_row"
    using after Suc.prems(1) unfolding row_upto_def by simp
  then have copy: "copy_loop curr_row 0 prev = curr_row"
    by (rule copy_loop_copies) simp
  have run: "outer_loop a b aHi bLo bHi (i + 1) (curr_row, s1, ae1, be1)
             = (prev', size', aEnd', bEnd')"
    using Suc.prems(6) lt inner copy
    by (subst (asm) outer_loop.simps) simp
  have row: "row_upto a b aLo bLo bHi (i + 1 - 1) bHi curr_row" using after by simp
  have best: "best_ok a b aLo bLo bHi (i + 1) bLo s1 ae1 be1"
    using after by (simp add: best_row_end)
  show ?case
    by (rule Suc.hyps(1) [OF n row best _ _ Suc.prems(5) run]) (use Suc.prems(3) lt in simp_all)
qed

lemma best_ok_start: "best_ok a b aLo bLo bHi aLo bLo 0 aLo bLo"
  by (auto simp: best_ok_def seen_def)

lemma best_ok_empty:
  "aLo \<ge> aHi \<or> bLo \<ge> bHi \<Longrightarrow> best_ok a b aLo bLo bHi aHi bLo 0 aLo bLo"
  by (auto simp: best_ok_def seen_def)

lemma findLongestCommonBlock_best:
  "\<exists>s ae be. findLongestCommonBlock a b aLo aHi bLo bHi
                = \<lparr>aStart = ae - s, bStart = be - s, size_mb = s\<rparr>
              \<and> best_ok a b aLo bLo bHi aHi bLo s ae be"
proof (cases "aLo \<ge> aHi \<or> bLo \<ge> bHi")
  case True
  then have "findLongestCommonBlock a b aLo aHi bLo bHi
             = \<lparr>aStart = aLo - 0, bStart = bLo - 0, size_mb = 0\<rparr>"
    by (auto simp: findLongestCommonBlock_def)
  with best_ok_empty [OF True] show ?thesis by blast
next
  case False
  then have ne: "aLo \<le> aHi" "bLo \<le> bHi" by simp_all
  obtain prev' s ae be where
    run: "outer_loop a b aHi bLo bHi aLo (replicate (nat (bHi - bLo + 1)) 0, 0, aLo, bLo)
          = (prev', s, ae, be)"
    using prod_cases4 by blast
  have best: "best_ok a b aLo bLo bHi aHi bLo s ae be"
    by (rule outer_loop_correct [OF row_before_region [OF ne(2)] best_ok_start order_refl
          ne run])
  have "findLongestCommonBlock a b aLo aHi bLo bHi
        = \<lparr>aStart = ae - s, bStart = be - s, size_mb = s\<rparr>"
    using False run by (simp add: findLongestCommonBlock_def Let_def)
  with best show ?thesis by blast
qed

lemma findLongestCommonBlock_size_nonneg: "0 \<le> size_mb (findLongestCommonBlock a b aLo aHi bLo bHi)"
  using findLongestCommonBlock_best [of a b aLo aHi bLo bHi] by (auto simp: best_ok_def)

lemma best_block_inside:
  assumes "best_ok a b aLo bLo bHi aHi bLo s ae be" "0 < s"
  shows "aLo \<le> ae - s \<and> ae \<le> aHi \<and> bLo \<le> be - s \<and> be \<le> bHi \<and> js_run a b (ae - s) (be - s) s"
proof -
  have cell: "seen aLo bLo bHi aHi bLo (ae - 1) (be - 1)"
    and len: "csuf a b aLo bLo (ae - 1) (be - 1) = s"
    using assms unfolding best_ok_def by simp_all
  have in_a: "aLo \<le> ae - 1" "ae - 1 < aHi" and in_b: "bLo \<le> be - 1" "be - 1 < bHi"
    using cell by (auto simp: seen_def)
  have "s \<le> (ae - 1) - aLo + 1 \<and> s \<le> (be - 1) - bLo + 1"
    using csuf_bound [of aLo "ae - 1" bLo "be - 1" a b] in_a in_b len by simp
  moreover have "js_run a b (ae - s) (be - s) s"
    unfolding js_run_def
  proof (intro allI impI)
    fix k assume k: "0 \<le> k \<and> k < s"
    have "js_nth a ((ae - 1) - (s - 1 - k)) = js_nth b ((be - 1) - (s - 1 - k))"
      by (rule csuf_match [where aLo = aLo and bLo = bLo]) (use k len in simp_all)
    then show "js_nth a (ae - s + k) = js_nth b (be - s + k)" by (simp add: algebra_simps)
  qed
  ultimately show ?thesis using in_a in_b by simp
qed

lemma best_block_cell:
  assumes "js_run a b s0 t0 n" "0 < n" "aLo \<le> s0" "s0 + n \<le> aHi" "bLo \<le> t0" "t0 + n \<le> bHi"
  shows "seen aLo bLo bHi aHi bLo (s0 + n - 1) (t0 + n - 1)
         \<and> n \<le> csuf a b aLo bLo (s0 + n - 1) (t0 + n - 1)"
proof -
  have "\<forall>k. 0 \<le> k \<and> k < n \<longrightarrow> js_nth a (s0 + n - 1 - k) = js_nth b (t0 + n - 1 - k)"
  proof (intro allI impI)
    fix k assume k: "0 \<le> k \<and> k < n"
    then have "js_nth a (s0 + (n - 1 - k)) = js_nth b (t0 + (n - 1 - k))"
      using assms(1) unfolding js_run_def by simp
    then show "js_nth a (s0 + n - 1 - k) = js_nth b (t0 + n - 1 - k)"
      by (simp add: algebra_simps)
  qed
  then have "n \<le> csuf a b aLo bLo (s0 + n - 1) (t0 + n - 1)"
    by (intro csuf_max) (use assms in simp_all)
  then show ?thesis using assms by (simp add: seen_def)
qed

lemma best_block_maximal:
  assumes "best_ok a b aLo bLo bHi aHi bLo s ae be"
    and "js_run a b s0 t0 n" "aLo \<le> s0" "s0 + n \<le> aHi" "bLo \<le> t0" "t0 + n \<le> bHi"
  shows "n \<le> s"
proof (cases "0 < n")
  case True
  from best_block_cell [OF assms(2) True assms(3-6)]
  show ?thesis using assms(1) unfolding best_ok_def by force
next
  case False
  then show ?thesis using assms(1) unfolding best_ok_def by simp
qed

lemma best_block_first:
  assumes "best_ok a b aLo bLo bHi aHi bLo s ae be" "0 < s"
    and "js_run a b s0 t0 s" "aLo \<le> s0" "s0 + s \<le> aHi" "bLo \<le> t0" "t0 + s \<le> bHi"
  shows "ae < s0 + s \<or> (ae = s0 + s \<and> be \<le> t0 + s)"
proof -
  from best_block_cell [OF assms(3,2,4-7)]
  have cell: "seen aLo bLo bHi aHi bLo (s0 + s - 1) (t0 + s - 1)"
    and big: "s \<le> csuf a b aLo bLo (s0 + s - 1) (t0 + s - 1)" by simp_all
  have "\<forall>i' j'. seen aLo bLo bHi (ae - 1) (be - 1) i' j' \<longrightarrow> csuf a b aLo bLo i' j' < s"
    using assms(1,2) unfolding best_ok_def by simp
  then have "\<not> seen aLo bLo bHi (ae - 1) (be - 1) (s0 + s - 1) (t0 + s - 1)"
    using big by force
  then show ?thesis using cell by (auto simp: seen_def)
qed

lemma js_nth_in_range:
  "0 \<le> i \<Longrightarrow> i < int (length xs) \<Longrightarrow> js_nth xs i = Some (xs ! nat i)"
  by (simp add: js_nth_def)

lemma common_block_js_run:
  assumes "0 \<le> aLo" "aHi \<le> int (length a)" "0 \<le> bLo" "bHi \<le> int (length b)"
    and "aLo \<le> s" "s + n \<le> aHi" "bLo \<le> t" "t + n \<le> bHi"
  shows "js_run a b s t n = list_all (\<lambda>k. a ! nat (s + k) = b ! nat (t + k)) [0..n - 1]"
proof -
  have "js_nth a (s + k) = js_nth b (t + k) \<longleftrightarrow> a ! nat (s + k) = b ! nat (t + k)"
    if "0 \<le> k \<and> k < n" for k
    using that assms by (simp add: js_nth_in_range)
  then show ?thesis unfolding js_run_def list_all_iff by auto
qed

lemma findLongestCommonBlock_spec:
  assumes "0 \<le> aLo" "aLo \<le> aHi" "aHi \<le> int (length a)"
    and "0 \<le> bLo" "bLo \<le> bHi" "bHi \<le> int (length b)"
    and "findLongestCommonBlock a b aLo aHi bLo bHi = r"
  shows "common_block a b aLo aHi bLo bHi (aStart r) (bStart r) (size_mb r)
    \<and> (\<forall>s t n. common_block a b aLo aHi bLo bHi s t n \<longrightarrow>
          n \<le> size_mb r
          \<and> (n = size_mb r \<and> 0 < n \<longrightarrow>
               aStart r + size_mb r < s + n
               \<or> (aStart r + size_mb r = s + n \<and> bStart r + size_mb r \<le> t + n)))"
proof -
  obtain sz ae be where r: "r = \<lparr>aStart = ae - sz, bStart = be - sz, size_mb = sz\<rparr>"
    and best: "best_ok a b aLo bLo bHi aHi bLo sz ae be"
    using findLongestCommonBlock_best [of a b aLo aHi bLo bHi] assms(7) by auto
  have nn: "0 \<le> sz" using best unfolding best_ok_def by simp
  have own: "common_block a b aLo aHi bLo bHi (ae - sz) (be - sz) sz"
  proof (cases "0 < sz")
    case True
    from best_block_inside [OF best True]
    have inside: "aLo \<le> ae - sz" "ae \<le> aHi" "bLo \<le> be - sz" "be \<le> bHi"
      and run: "js_run a b (ae - sz) (be - sz) sz" by simp_all
    have "list_all (\<lambda>k. a ! nat (ae - sz + k) = b ! nat (be - sz + k)) [0..sz - 1]"
      using run common_block_js_run [OF assms(1,3,4,6), of "ae - sz" sz "be - sz"] inside
      by simp
    then show ?thesis using inside nn by (simp add: common_block_def)
  next
    case False
    then have "sz = 0" using nn by simp
    moreover have "ae = aLo \<and> be = bLo" using best \<open>sz = 0\<close> unfolding best_ok_def by simp
    ultimately show ?thesis using assms(2,5) by (simp add: common_block_def)
  qed
  have others: "n \<le> sz \<and> (n = sz \<and> 0 < n \<longrightarrow>
                  ae < s + n \<or> (ae = s + n \<and> be \<le> t + n))"
    if cb: "common_block a b aLo aHi bLo bHi s t n" for s t n
  proof -
    have inside: "aLo \<le> s" "s + n \<le> aHi" "bLo \<le> t" "t + n \<le> bHi"
      using cb by (simp_all add: common_block_def)
    have run: "js_run a b s t n"
      using cb common_block_js_run [OF assms(1,3,4,6) inside] by (simp add: common_block_def)
    have le: "n \<le> sz" by (rule best_block_maximal [OF best run inside])
    have "ae < s + n \<or> (ae = s + n \<and> be \<le> t + n)" if "n = sz" "0 < n"
      using best_block_first [OF best _ _ inside(1) _ inside(3)] run inside that by simp
    with le show ?thesis by simp
  qed
  show ?thesis using own others unfolding r by simp
qed

text \<open>
  C4. For token sequences \<open>a\<close>, \<open>b\<close> and a region \<open>[aLo, aHi) \<times> [bLo, bHi)\<close> of them,
  \<^verbatim>\<open>findLongestCommonBlock\<close> returns a common block inside the region; no common block
  inside the region is larger; and every common block of the same (positive) size
  ends at the same row and no earlier column, or at a later row: the block returned
  is the one whose end comes first in the row-major sweep.
\<close>

theorem findLongestCommonBlock_maximal_first:
  assumes "0 \<le> aLo" "aLo \<le> aHi" "aHi \<le> int (length a)"
    and "0 \<le> bLo" "bLo \<le> bHi" "bHi \<le> int (length b)"
    and "findLongestCommonBlock a b aLo aHi bLo bHi = r"
  shows "common_block a b aLo aHi bLo bHi (aStart r) (bStart r) (size_mb r)
    \<and> (\<forall>s t n. common_block a b aLo aHi bLo bHi s t n \<longrightarrow>
          n \<le> size_mb r
          \<and> (n = size_mb r \<and> 0 < n \<longrightarrow>
               aStart r + size_mb r < s + n
               \<or> (aStart r + size_mb r = s + n \<and> bStart r + size_mb r \<le> t + n)))"
  by (rule findLongestCommonBlock_spec [OF assms])

theorem findLongestCommonBlock_maximal_first_witness:
  "(0::int) \<le> 0 \<and> (0::int) \<le> 4 \<and> 4 \<le> int (length ''abab'')
   \<and> (0::int) \<le> 2 \<and> 2 \<le> int (length ''ab'')
   \<and> findLongestCommonBlock ''abab'' ''ab'' 0 4 0 2 = \<lparr>aStart = 0, bStart = 0, size_mb = 2\<rparr>
   \<and> common_block ''abab'' ''ab'' 0 4 0 2 0 0 2
   \<and> common_block ''abab'' ''ab'' 0 4 0 2 2 0 2
   \<and> ((0::int) + 2 < 2 + 2 \<or> ((0::int) + 2 = 2 + 2 \<and> (0::int) + 2 \<le> 0 + 2))"
proof -
  have v: "findLongestCommonBlock ''abab'' ''ab'' 0 4 0 2 = \<lparr>aStart = 0, bStart = 0, size_mb = 2\<rparr>"
    by code_simp
  have other: "common_block ''abab'' ''ab'' 0 4 0 2 2 0 2"
    by (simp add: common_block_def upto_rec1)
  from findLongestCommonBlock_maximal_first [of 0 4 "''abab''" 0 2 "''ab''", OF _ _ _ _ _ _ v] other
  show ?thesis using v by simp
qed

section \<open>The work list of findMatchingBlocks\<close>

lemma apart_sym: "apart R S = apart S R"
  by (cases R; cases S) (auto simp: apart_def)

lemma apart_within: "apart R S \<Longrightarrow> within R' R \<Longrightarrow> apart R' S"
  by (cases R; cases S; cases R') (auto simp: apart_def within_def)

lemma apart_within2: "apart S R \<Longrightarrow> within R' R \<Longrightarrow> apart S R'"
  using apart_within apart_sym by blast

lemma common_block_widen:
  "common_block a b aLo aHi bLo bHi s t n \<Longrightarrow>
   aLo' \<le> aLo \<Longrightarrow> aHi \<le> aHi' \<Longrightarrow> bLo' \<le> bLo \<Longrightarrow> bHi \<le> bHi' \<Longrightarrow>
   common_block a b aLo' aHi' bLo' bHi' s t n"
  by (simp add: common_block_def)

lemma fmb_step_inv:
  assumes inv: "fmb_inv a b m ((aLo, aHi, bLo, bHi) # rest) blocks"
    and best: "findLongestCommonBlock a b aLo aHi bLo bHi = best"
    and big: "m \<le> size_mb best" and m: "1 \<le> m"
  shows "fmb_inv a b m
           ((aStart best + size_mb best, aHi, bStart best + size_mb best, bHi)
            # (aLo, aStart best, bLo, bStart best) # rest)
           (blocks @ [best])"
    and "work ((aStart best + size_mb best, aHi, bStart best + size_mb best, bHi)
            # (aLo, aStart best, bLo, bStart best) # rest)
         < work ((aLo, aHi, bLo, bHi) # rest)"
proof -
  let ?R = "(aLo, aHi, bLo, bHi)"
  let ?R1 = "(aLo, aStart best, bLo, bStart best)"
  let ?R2 = "(aStart best + size_mb best, aHi, bStart best + size_mb best, bHi)"
  have R_ok: "0 \<le> aLo" "aLo \<le> aHi" "aHi \<le> int (length a)"
    "0 \<le> bLo" "bLo \<le> bHi" "bHi \<le> int (length b)"
    and rest_ok: "list_all (region_ok a b) rest"
    and blocks_ok: "list_all (block_ok a b m) blocks"
    and bl_apart: "blocks_apart blocks"
    and R_rest: "list_all (apart ?R) rest" and rest_apart: "sorted_wrt apart rest"
    and bl_R: "list_all (\<lambda>blk. apart (block_region blk) ?R) blocks"
    and bl_rest: "list_all (\<lambda>blk. list_all (apart (block_region blk)) rest) blocks"
    using inv by (auto simp: fmb_inv_def region_ok_def list_all_iff)
  have cb: "common_block a b aLo aHi bLo bHi (aStart best) (bStart best) (size_mb best)"
    using findLongestCommonBlock_spec [OF R_ok best] by simp
  then have pos: "aLo \<le> aStart best" "aStart best + size_mb best \<le> aHi"
    "bLo \<le> bStart best" "bStart best + size_mb best \<le> bHi" "1 \<le> size_mb best"
    using big m by (simp_all add: common_block_def)
  have w1: "within ?R1 ?R" and w2: "within ?R2 ?R" and wb: "within (block_region best) ?R"
    using pos by (simp_all add: within_def block_region_def)
  have best_ok': "block_ok a b m best"
    using common_block_widen [OF cb R_ok(1,3,4,6)] big by (simp add: block_ok_def)
  have r_ok: "region_ok a b ?R1" "region_ok a b ?R2"
    using R_ok pos by (simp_all add: region_ok_def)
  have b12: "apart (block_region best) ?R1" "apart (block_region best) ?R2" "apart ?R2 ?R1"
    using pos by (simp_all add: apart_def block_region_def)
  have new_rest: "list_all (apart ?R1) rest" "list_all (apart ?R2) rest"
    "list_all (apart (block_region best)) rest"
    using R_rest apart_within [OF _ w1] apart_within [OF _ w2] apart_within [OF _ wb]
    by (auto simp: list_all_iff)
  have old_new: "list_all (\<lambda>blk. apart (block_region blk) ?R1) blocks"
    "list_all (\<lambda>blk. apart (block_region blk) ?R2) blocks"
    "list_all (\<lambda>blk. apart (block_region blk) (block_region best)) blocks"
    using bl_R apart_within2 [OF _ w1] apart_within2 [OF _ w2] apart_within2 [OF _ wb]
    by (auto simp: list_all_iff)
  have apart': "blocks_apart (blocks @ [best])"
    using bl_apart old_new(3) by (simp add: blocks_apart_def sorted_wrt_append list_all_iff)
  have pend: "sorted_wrt apart (?R2 # ?R1 # rest)"
    using rest_apart new_rest b12(3) by (simp add: list_all_iff)
  have cross: "list_all (\<lambda>blk. list_all (apart (block_region blk)) (?R2 # ?R1 # rest))
                 (blocks @ [best])"
    using bl_rest old_new(1,2) b12(1,2) new_rest(3) by (simp add: list_all_iff)
  show "fmb_inv a b m (?R2 # ?R1 # rest) (blocks @ [best])"
    unfolding fmb_inv_def
    using rest_ok r_ok blocks_ok best_ok' apart' pend cross by simp
  show "work (?R2 # ?R1 # rest) < work (?R # rest)"
    using pos by simp
qed

lemma fmb_skip_inv:
  assumes "fmb_inv a b m (R # rest) blocks"
  shows "fmb_inv a b m rest blocks"
  using assms by (auto simp: fmb_inv_def list_all_iff)

lemma fmb_loop_total:
  assumes "1 \<le> m" "fmb_inv a b m pending blocks"
  shows "\<exists>bs. fmb_loop a b m pending blocks = Some bs \<and> fmb_inv a b m [] bs"
  using assms(2)
proof (induction "work pending" arbitrary: pending blocks rule: less_induct)
  case less
  show ?case
  proof (cases pending)
    case Nil
    then show ?thesis using less.prems by (subst fmb_loop.simps) simp
  next
    case (Cons R rest)
    obtain aLo aHi bLo bHi where R: "R = (aLo, aHi, bLo, bHi)" by (cases R) auto
    let ?best = "findLongestCommonBlock a b aLo aHi bLo bHi"
    show ?thesis
    proof (cases "size_mb ?best < m")
      case True
      have unfold: "fmb_loop a b m pending blocks = fmb_loop a b m rest blocks"
        using True Cons R by (subst fmb_loop.simps) (simp add: Let_def)
      have "work rest < work pending" using Cons R by simp
      from less.hyps [OF this fmb_skip_inv] less.prems Cons
      show ?thesis using unfold by simp
    next
      case False
      let ?pending = "(aStart ?best + size_mb ?best, aHi, bStart ?best + size_mb ?best, bHi)
                      # (aLo, aStart ?best, bLo, bStart ?best) # rest"
      have unfold: "fmb_loop a b m pending blocks = fmb_loop a b m ?pending (blocks @ [?best])"
        using False Cons R by (subst fmb_loop.simps) (simp add: Let_def)
      have inv: "fmb_inv a b m ((aLo, aHi, bLo, bHi) # rest) blocks"
        using less.prems Cons R by simp
      have big: "m \<le> size_mb ?best" using False by simp
      have "fmb_inv a b m ?pending (blocks @ [?best])"
        and "work ?pending < work pending"
        using fmb_step_inv [OF inv refl big assms(1)] Cons R by simp_all
      from less.hyps [OF this(2) this(1)]
      show ?thesis using unfold by simp
    qed
  qed
qed

lemma fmb_inv_start: "fmb_inv a b m [(0, int (length a), 0, int (length b))] []"
  by (simp add: fmb_inv_def region_ok_def blocks_apart_def)

lemma sorted_wrt_insort_key:
  assumes "\<And>x y. P x y = P y x"
  shows "sorted_wrt P (insort_key f x xs) = ((\<forall>y\<in>set xs. P x y) \<and> sorted_wrt P xs)"
  using assms by (induction xs) (auto simp: set_insort_key)

lemma sorted_wrt_sort_key:
  assumes "\<And>x y. P x y = P y x"
  shows "sorted_wrt P (sort_key f xs) = sorted_wrt P xs"
  by (induction xs) (simp_all add: sorted_wrt_insort_key [OF assms])

lemma findMatchingBlocks_total:
  assumes "1 \<le> m"
  shows "\<exists>bs. findMatchingBlocks a b m = Some bs \<and> list_all (block_ok a b m) bs
              \<and> blocks_apart bs \<and> sorted (map aStart bs)"
proof -
  obtain bs where run: "fmb_loop a b m [(0, int (length a), 0, int (length b))] [] = Some bs"
    and inv: "fmb_inv a b m [] bs"
    using fmb_loop_total [OF assms fmb_inv_start] by blast
  have "findMatchingBlocks a b m = Some (sort_key aStart bs)"
    using run by (simp add: findMatchingBlocks_def)
  moreover have "list_all (block_ok a b m) (sort_key aStart bs)"
    using inv by (simp add: fmb_inv_def list_all_iff)
  moreover have "blocks_apart (sort_key aStart bs)"
    using inv unfolding fmb_inv_def blocks_apart_def
    by (subst sorted_wrt_sort_key) (auto simp: apart_sym)
  moreover have "sorted (map aStart (sort_key aStart bs))" by (rule sorted_sort_key)
  ultimately show ?thesis by blast
qed

lemma apart_disjoint:
  assumes "apart (block_region x) (block_region y)"
  shows "{aStart x ..< aStart x + size_mb x} \<inter> {aStart y ..< aStart y + size_mb y} = {}
         \<and> {bStart x ..< bStart x + size_mb x} \<inter> {bStart y ..< bStart y + size_mb y} = {}"
  using assms by (auto simp: apart_def block_region_def)

text \<open>With a threshold of 0 or less every region is split again, so the work list never empties.\<close>

lemma fmb_loop_diverges_aux:
  assumes "fmb_loop a b m pending blocks = Some bs"
  shows "m \<le> 0 \<longrightarrow> pending = []"
proof (rule fmb_loop.raw_induct
    [where P = "\<lambda>a b m pending blocks bs. m \<le> 0 \<longrightarrow> pending = []", OF _ assms])
  fix loop a b m pending blocks bs
  assume IH: "\<And>a b m pending blocks bs.
                loop a b m pending blocks = Some bs \<Longrightarrow> m \<le> 0 \<longrightarrow> pending = []"
    and step: "(case pending of
                  [] \<Rightarrow> Some blocks
                | (aLo, aHi, bLo, bHi) # rest \<Rightarrow>
                    (let best = findLongestCommonBlock a b aLo aHi bLo bHi in
                     if size_mb best < m
                     then loop a b m rest blocks
                     else loop a b m
                            ((aStart best + size_mb best, aHi, bStart best + size_mb best, bHi)
                             # (aLo, aStart best, bLo, bStart best) # rest)
                            (blocks @ [best]))) = Some bs"
  show "m \<le> 0 \<longrightarrow> pending = []"
  proof (intro impI)
    assume m: "m \<le> 0"
    show "pending = []"
    proof (cases pending)
      case Nil
      then show ?thesis .
    next
      case (Cons R rest)
      obtain aLo aHi bLo bHi where R: "R = (aLo, aHi, bLo, bHi)" by (cases R) auto
      let ?best = "findLongestCommonBlock a b aLo aHi bLo bHi"
      have "\<not> size_mb ?best < m"
        using findLongestCommonBlock_size_nonneg [of a b aLo aHi bLo bHi] m by simp
      then have "loop a b m
                  ((aStart ?best + size_mb ?best, aHi, bStart ?best + size_mb ?best, bHi)
                   # (aLo, aStart ?best, bLo, bStart ?best) # rest)
                  (blocks @ [?best]) = Some bs"
        using step Cons R by (simp add: Let_def)
      from IH [OF this] m show ?thesis by simp
    qed
  qed
qed

lemma fmb_loop_diverges:
  "m \<le> 0 \<Longrightarrow> pending \<noteq> [] \<Longrightarrow> fmb_loop a b m pending blocks = None"
  using fmb_loop_diverges_aux [of a b m pending blocks] by (cases "fmb_loop a b m pending blocks") auto

lemma findMatchingBlocks_diverges: "m \<le> 0 \<Longrightarrow> findMatchingBlocks a b m = None"
  by (simp add: findMatchingBlocks_def fmb_loop_diverges)

text \<open>
  C1. For all token sequences \<open>a\<close>, \<open>b\<close> and every \<open>minMatchWords \<ge> 1\<close>,
  \<^verbatim>\<open>findMatchingBlocks\<close> returns a list of blocks; every block has
  \<open>size \<ge> minMatchWords\<close>, lies inside both sequences and has
  \<open>a[aStart + k] = b[bStart + k]\<close> for all \<open>k\<close> in \<open>[0, size)\<close>; and the list is sorted
  by ascending \<open>aStart\<close>.
\<close>

theorem findMatchingBlocks_blocks_correct:
  assumes "1 \<le> minMatchWords"
  shows "\<exists>blocks. findMatchingBlocks a b minMatchWords = Some blocks
           \<and> list_all (block_ok a b minMatchWords) blocks
           \<and> sorted (map aStart blocks)"
  using findMatchingBlocks_total [OF assms, of a b] by blast

theorem findMatchingBlocks_blocks_correct_witness:
  "(1::int) \<le> 3
   \<and> findMatchingBlocks
        [''alpha'', ''beta'', ''gamma'', ''one'', ''two'', ''three'', ''delta'', ''epsilon'', ''zeta'']
        [''zzz'', ''alpha'', ''beta'', ''gamma'', ''yyy'', ''delta'', ''epsilon'', ''zeta'', ''www''] 3
      = Some [\<lparr>aStart = 0, bStart = 1, size_mb = 3\<rparr>, \<lparr>aStart = 6, bStart = 5, size_mb = 3\<rparr>]
   \<and> list_all (block_ok
        [''alpha'', ''beta'', ''gamma'', ''one'', ''two'', ''three'', ''delta'', ''epsilon'', ''zeta'']
        [''zzz'', ''alpha'', ''beta'', ''gamma'', ''yyy'', ''delta'', ''epsilon'', ''zeta'', ''www''] 3)
        [\<lparr>aStart = 0, bStart = 1, size_mb = 3\<rparr>, \<lparr>aStart = 6, bStart = 5, size_mb = 3\<rparr>]
   \<and> sorted (map aStart
        [\<lparr>aStart = 0, bStart = 1, size_mb = 3\<rparr>, \<lparr>aStart = 6, bStart = 5, size_mb = 3\<rparr>])"
proof -
  let ?a = "[''alpha'', ''beta'', ''gamma'', ''one'', ''two'', ''three'', ''delta'', ''epsilon'', ''zeta'']"
  let ?b = "[''zzz'', ''alpha'', ''beta'', ''gamma'', ''yyy'', ''delta'', ''epsilon'', ''zeta'', ''www'']"
  have m: "(1::int) \<le> 3" by simp
  have v: "findMatchingBlocks ?a ?b 3
           = Some [\<lparr>aStart = 0, bStart = 1, size_mb = 3\<rparr>, \<lparr>aStart = 6, bStart = 5, size_mb = 3\<rparr>]"
    by code_simp
  from findMatchingBlocks_blocks_correct [OF m, of ?a ?b] v m
  show ?thesis by auto
qed

text \<open>
  C2. For all token sequences and every \<open>minMatchWords \<ge> 1\<close>, any two blocks at
  different positions of the list returned by \<^verbatim>\<open>findMatchingBlocks\<close> have disjoint
  index ranges \<open>[aStart, aStart + size)\<close> in \<open>a\<close> and disjoint index ranges
  \<open>[bStart, bStart + size)\<close> in \<open>b\<close>.
\<close>

theorem findMatchingBlocks_disjoint:
  assumes "1 \<le> minMatchWords"
  shows "\<exists>blocks. findMatchingBlocks a b minMatchWords = Some blocks
           \<and> (\<forall>i j. i < length blocks \<and> j < length blocks \<and> i \<noteq> j \<longrightarrow>
                 {aStart (blocks ! i) ..< aStart (blocks ! i) + size_mb (blocks ! i)}
                   \<inter> {aStart (blocks ! j) ..< aStart (blocks ! j) + size_mb (blocks ! j)} = {}
                 \<and> {bStart (blocks ! i) ..< bStart (blocks ! i) + size_mb (blocks ! i)}
                   \<inter> {bStart (blocks ! j) ..< bStart (blocks ! j) + size_mb (blocks ! j)} = {})"
proof -
  obtain blocks where run: "findMatchingBlocks a b minMatchWords = Some blocks"
    and ap: "blocks_apart blocks"
    using findMatchingBlocks_total [OF assms, of a b] by blast
  have pair: "apart (block_region (blocks ! i)) (block_region (blocks ! j))"
    if "i < length blocks" "j < length blocks" "i \<noteq> j" for i j
  proof (cases "i < j")
    case True
    show ?thesis
      by (rule sorted_wrt_nth_less [OF ap [unfolded blocks_apart_def] True that(2)])
  next
    case False
    then have "j < i" using that(3) by simp
    have "apart (block_region (blocks ! j)) (block_region (blocks ! i))"
      by (rule sorted_wrt_nth_less [OF ap [unfolded blocks_apart_def] \<open>j < i\<close> that(1)])
    then show ?thesis by (simp add: apart_sym)
  qed
  show ?thesis using run pair apart_disjoint by blast
qed

theorem findMatchingBlocks_disjoint_witness:
  "(1::int) \<le> 1
   \<and> findMatchingBlocks ''abcxde'' ''deyabc'' 1
      = Some [\<lparr>aStart = 0, bStart = 3, size_mb = 3\<rparr>]
   \<and> findMatchingBlocks ''abcxde'' ''abcyde'' 1
      = Some [\<lparr>aStart = 0, bStart = 0, size_mb = 3\<rparr>, \<lparr>aStart = 4, bStart = 4, size_mb = 2\<rparr>]
   \<and> {0 ..< 0 + 3} \<inter> {4 ..< 4 + (2::int)} = {}"
proof -
  have m: "(1::int) \<le> 1" by simp
  have v1: "findMatchingBlocks ''abcxde'' ''deyabc'' 1
            = Some [\<lparr>aStart = 0, bStart = 3, size_mb = 3\<rparr>]"
    by code_simp
  have v2: "findMatchingBlocks ''abcxde'' ''abcyde'' 1
            = Some [\<lparr>aStart = 0, bStart = 0, size_mb = 3\<rparr>, \<lparr>aStart = 4, bStart = 4, size_mb = 2\<rparr>]"
    by code_simp
  from findMatchingBlocks_disjoint [OF m, of "''abcxde''" "''abcyde''"]
  obtain blocks where run: "findMatchingBlocks ''abcxde'' ''abcyde'' 1 = Some blocks"
    and apart: "\<And>i j. i < length blocks \<and> j < length blocks \<and> i \<noteq> j \<Longrightarrow>
      {aStart (blocks ! i) ..< aStart (blocks ! i) + size_mb (blocks ! i)}
        \<inter> {aStart (blocks ! j) ..< aStart (blocks ! j) + size_mb (blocks ! j)} = {}"
    by blast
  have eq: "blocks = [\<lparr>aStart = 0, bStart = 0, size_mb = 3\<rparr>, \<lparr>aStart = 4, bStart = 4, size_mb = 2\<rparr>]"
    using run v2 by simp
  have "{0 ..< 0 + 3} \<inter> {4 ..< 4 + (2::int)} = {}"
    using apart [of 0 1] unfolding eq by simp
  with m v1 v2 show ?thesis by blast
qed

text \<open>
  C5. For all finite token sequences and every \<open>minMatchWords \<ge> 1\<close>,
  \<^verbatim>\<open>findMatchingBlocks\<close> terminates: the loop over the work list, started on the full
  region, returns, and so does the function.
\<close>

theorem findMatchingBlocks_terminates:
  assumes "1 \<le> minMatchWords"
  shows "\<exists>blocks. fmb_loop a b minMatchWords [(0, int (length a), 0, int (length b))] [] = Some blocks
           \<and> findMatchingBlocks a b minMatchWords = Some (sort_key aStart blocks)"
proof -
  obtain blocks where
    "fmb_loop a b minMatchWords [(0, int (length a), 0, int (length b))] [] = Some blocks"
    using fmb_loop_total [OF assms fmb_inv_start, of a b] by blast
  then show ?thesis by (simp add: findMatchingBlocks_def)
qed

theorem findMatchingBlocks_terminates_witness:
  "(1::int) \<le> 1
   \<and> fmb_loop ''aaaa'' ''aa'' 1 [(0, int (length ''aaaa''), 0, int (length ''aa''))] []
      = Some [\<lparr>aStart = 0, bStart = 0, size_mb = 2\<rparr>]
   \<and> findMatchingBlocks ''aaaa'' ''aa'' 1 = Some [\<lparr>aStart = 0, bStart = 0, size_mb = 2\<rparr>]"
proof -
  have m: "(1::int) \<le> 1" by simp
  have v: "fmb_loop ''aaaa'' ''aa'' 1 [(0, int (length ''aaaa''), 0, int (length ''aa''))] []
           = Some [\<lparr>aStart = 0, bStart = 0, size_mb = 2\<rparr>]"
    by code_simp
  from findMatchingBlocks_terminates [OF m, of "''aaaa''" "''aa''"] v m
  show ?thesis by auto
qed

text \<open>
  C6, as the code has it. \<^verbatim>\<open>findMatchingBlocks\<close> does not validate \<open>minMatchWords\<close>
  (there is no clamp and no rejection); it is called with \<open>minMatchWords \<ge> 1\<close>, and
  then it returns. Whatever the value of \<open>minMatchWords\<close>, a list it returns holds no
  block of size 0: every block has \<open>size \<ge> 1\<close> and \<open>size \<ge> minMatchWords\<close>.
\<close>

theorem findMatchingBlocks_no_empty_block:
  "(1 \<le> minMatchWords \<longrightarrow> (\<exists>blocks. findMatchingBlocks a b minMatchWords = Some blocks))
   \<and> (\<forall>blocks. findMatchingBlocks a b minMatchWords = Some blocks
         \<longrightarrow> list_all (\<lambda>blk. 1 \<le> size_mb blk \<and> minMatchWords \<le> size_mb blk) blocks)"
proof (intro conjI impI allI)
  assume "1 \<le> minMatchWords"
  then show "\<exists>blocks. findMatchingBlocks a b minMatchWords = Some blocks"
    using findMatchingBlocks_total [of minMatchWords a b] by blast
next
  fix blocks assume run: "findMatchingBlocks a b minMatchWords = Some blocks"
  have m: "1 \<le> minMatchWords"
    using run findMatchingBlocks_diverges [of minMatchWords a b] by (cases "minMatchWords \<le> 0") auto
  from findMatchingBlocks_total [OF m, of a b] run
  have "list_all (block_ok a b minMatchWords) blocks" by auto
  then show "list_all (\<lambda>blk. 1 \<le> size_mb blk \<and> minMatchWords \<le> size_mb blk) blocks"
    using m by (auto simp: list_all_iff block_ok_def)
qed

theorem findMatchingBlocks_no_empty_block_witness:
  "(1::int) \<le> 1
   \<and> findMatchingBlocks ''ab'' ''ab'' 1 = Some [\<lparr>aStart = 0, bStart = 0, size_mb = 2\<rparr>]
   \<and> list_all (\<lambda>blk. 1 \<le> size_mb blk \<and> 1 \<le> size_mb blk)
        [\<lparr>aStart = 0, bStart = 0, size_mb = 2\<rparr>]"
proof -
  have v: "findMatchingBlocks ''ab'' ''ab'' 1 = Some [\<lparr>aStart = 0, bStart = 0, size_mb = 2\<rparr>]"
    by code_simp
  from findMatchingBlocks_no_empty_block [of 1 "''ab''" "''ab''"] v
  show ?thesis by auto
qed

text \<open>
  C6, as stated, fails: on two empty sequences the call with \<open>minMatchWords = 0\<close> does
  not return, where a call clamped to 1 returns the empty list.
\<close>

theorem findMatchingBlocks_unvalidated_counterexample:
  "findMatchingBlocks ([]::string list) [] 0 = None
   \<and> findMatchingBlocks ([]::string list) [] 1 = Some []"
proof -
  have "findMatchingBlocks ([]::string list) [] 0 = None"
    by (rule findMatchingBlocks_diverges) simp
  moreover have "findMatchingBlocks ([]::string list) [] 1 = Some []" by code_simp
  ultimately show ?thesis by simp
qed

section \<open>Merging ranges\<close>

lemma merge_fold_hd: "merge_fold cur xs \<noteq> [] \<and> start (hd (merge_fold cur xs)) = start cur"
  by (induction xs arbitrary: cur) auto

lemma merge_fold_gaps: "successively strict_gap (merge_fold cur xs)"
proof (induction xs arbitrary: cur)
  case Nil
  then show ?case by simp
next
  case (Cons nxt rest)
  show ?case
  proof (cases "start nxt \<le> endp cur")
    case True
    then show ?thesis using Cons.IH by simp
  next
    case False
    then have "strict_gap cur (hd (merge_fold nxt rest))"
      using merge_fold_hd [of nxt rest] by (simp add: strict_gap_def)
    then show ?thesis
      using False Cons.IH [of nxt] merge_fold_hd [of nxt rest]
      by (simp add: successively_Cons)
  qed
qed

lemma merge_fold_starts:
  "set (map start (merge_fold cur xs)) \<subseteq> set (map start (cur # xs))"
proof (induction xs arbitrary: cur)
  case Nil
  then show ?case by simp
next
  case (Cons nxt rest)
  show ?case
  proof (cases "start nxt \<le> endp cur")
    case True
    then show ?thesis
      using Cons.IH [of "cur\<lparr>endp := max (endp cur) (endp nxt)\<rparr>"] by auto
  next
    case False
    then show ?thesis using Cons.IH [of nxt] by auto
  qed
qed

lemma merge_fold_sorted:
  "sorted (map start (cur # xs)) \<Longrightarrow> sorted (map start (merge_fold cur xs))"
proof (induction xs arbitrary: cur)
  case Nil
  then show ?case by simp
next
  case (Cons nxt rest)
  show ?case
  proof (cases "start nxt \<le> endp cur")
    case True
    have "sorted (map start (cur\<lparr>endp := max (endp cur) (endp nxt)\<rparr> # rest))"
      using Cons.prems by auto
    then show ?thesis using True Cons.IH by simp
  next
    case False
    have s: "sorted (map start (nxt # rest))" using Cons.prems by simp
    have "\<forall>v \<in> set (map start (merge_fold nxt rest)). start cur \<le> v"
      using merge_fold_starts [of nxt rest] Cons.prems by auto
    then show ?thesis using False Cons.IH [OF s] by simp
  qed
qed

lemma merge_fold_fixed:
  "successively strict_gap (cur # xs) \<Longrightarrow> merge_fold cur xs = cur # xs"
  by (induction xs arbitrary: cur) (auto simp: strict_gap_def)

lemma spec_mergeRanges_gaps: "successively strict_gap (spec_mergeRanges spans)"
  by (simp add: spec_mergeRanges_def merge_fold_gaps split: list.split)

lemma spec_mergeRanges_sorted: "sorted (map start (spec_mergeRanges spans))"
proof (cases "sort_key start spans")
  case Nil
  then show ?thesis by (simp add: spec_mergeRanges_def)
next
  case (Cons x xs)
  have "sorted (map start (sort_key start spans))" by (rule sorted_sort_key)
  then have "sorted (map start (merge_fold x xs))"
    unfolding Cons by (rule merge_fold_sorted)
  then show ?thesis using Cons by (simp add: spec_mergeRanges_def)
qed

lemma spec_mergeRanges_fixed:
  assumes "sorted (map start spans)" "successively strict_gap spans"
  shows "spec_mergeRanges spans = spans"
proof (cases spans)
  case Nil
  then show ?thesis by (simp add: spec_mergeRanges_def)
next
  case (Cons x xs)
  have "sort_key start spans = spans"
    using assms(1) by (rule sort_key_id_if_sorted)
  then have "sort_key start spans = x # xs" using Cons by simp
  then show ?thesis
    using assms(2) Cons by (simp add: spec_mergeRanges_def merge_fold_fixed)
qed

lemma spec_mergeRanges_idem:
  "spec_mergeRanges (spec_mergeRanges spans) = spec_mergeRanges spans"
  by (rule spec_mergeRanges_fixed [OF spec_mergeRanges_sorted spec_mergeRanges_gaps])

lemma gaps_pairwise:
  "sorted (map start xs) \<Longrightarrow> successively strict_gap xs \<Longrightarrow> sorted_wrt strict_gap xs"
proof (induction xs rule: induct_list012)
  case (3 x y zs)
  have "\<forall>z\<in>set (y # zs). endp x < start z"
    using "3.prems" by (auto simp: strict_gap_def)
  then show ?case using "3.prems" "3.IH"(2) by (simp add: strict_gap_def)
qed simp_all

lemma insort_key_map:
  "map f (insort_key (\<lambda>r. g (f r)) x xs) = insort_key g (f x) (map f xs)"
  by (induction xs) auto

lemma sort_key_map:
  "map f (sort_key (\<lambda>r. g (f r)) xs) = sort_key g (map f xs)"
  by (induction xs) (auto simp: insort_key_map)

text \<open>
  The loop on the store computes the fold on the values. The only object of the input
  that the loop writes is \<open>x0\<close>, and only while it is the last element of \<^verbatim>\<open>merged\<close>; a
  second reference to \<open>x0\<close> later in the input reads the extended span, which merges
  into itself and changes nothing.
\<close>

lemma merge_loop_refines:
  assumes "merge_inv h0 x0 h pre l rest"
    and "merge_loop rest (pre @ [l]) h = (merged', h')"
  shows "map ((!) h') merged' = map ((!) h) pre @ merge_fold (h ! l) (map ((!) h0) rest)"
  using assms
proof (induction rest arbitrary: h pre l)
  case Nil
  then show ?case by auto
next
  case (Cons cur rest)
  note inv = Cons.prems(1)
  let ?c = "h ! cur"
  have cur_in: "cur < length h0" and x0_in: "x0 < length h0" and len: "length h0 \<le> length h"
    and frame: "\<forall>r < length h0. r \<noteq> x0 \<longrightarrow> h ! r = h0 ! r"
    and dist: "distinct (pre @ [l])" and valid: "list_all (\<lambda>r. r < length h) (pre @ [l])"
    and l_kind: "l = x0 \<or> length h0 \<le> l"
    and srt: "sorted (map (\<lambda>r. start (h0 ! r)) (x0 # cur # rest))"
    and x0_start: "start (h ! x0) = start (h0 ! x0)"
    and x0_end: "endp (h0 ! x0) \<le> endp (h ! x0)"
    and rest_in: "list_all (\<lambda>r. r < length h0) rest"
    using inv by (simp_all add: merge_inv_def)
  have dup: "x0 \<in> set (cur # rest) \<longrightarrow>
             h ! x0 = h0 ! x0 \<or> (l = x0 \<and> start (h ! x0) \<le> endp (h ! x0))"
    using inv unfolding merge_inv_def by blast
  have l_valid: "l < length h" and l_fresh: "l \<notin> set pre" using dist valid by auto
  have c_start: "start ?c = start (h0 ! cur)"
    using frame cur_in x0_start by (cases "cur = x0") auto
  have srt': "sorted (map (\<lambda>r. start (h0 ! r)) (x0 # rest))" using srt by auto
  have min_cur: "start (h0 ! x0) \<le> start (h0 ! cur)" using srt by simp
  show ?case
  proof (cases "start ?c \<le> endp (h ! l)")
    case True
    let ?v = "(h ! l)\<lparr>endp := max (endp (h ! l)) (endp ?c)\<rparr>"
    let ?h1 = "h[l := ?v]"
    have run: "merge_loop rest (pre @ [l]) ?h1 = (merged', h')"
      using Cons.prems(2) True by (simp add: Let_def)
    have v_spec: "?v = (h ! l)\<lparr>endp := max (endp (h ! l)) (endp (h0 ! cur))\<rparr>"
    proof (cases "?c = h0 ! cur")
      case True
      then show ?thesis by simp
    next
      case False
      then have "cur = x0" using frame cur_in by auto
      with False dup have "l = x0" by auto
      with \<open>cur = x0\<close> x0_end show ?thesis by (simp add: max_def)
    qed
    have x0_h1: "l = x0 \<Longrightarrow> start (?h1 ! x0) \<le> endp (?h1 ! x0)"
      using l_valid True min_cur c_start x0_start by (simp add: max_def)
    have x0_same: "l \<noteq> x0 \<Longrightarrow> ?h1 ! x0 = h ! x0" by simp
    have dup1: "x0 \<in> set rest \<longrightarrow>
                ?h1 ! x0 = h0 ! x0 \<or> (l = x0 \<and> start (?h1 ! x0) \<le> endp (?h1 ! x0))"
      using dup x0_h1 x0_same by (cases "l = x0") auto
    have inv1: "merge_inv h0 x0 ?h1 pre l rest"
      unfolding merge_inv_def
    proof (intro conjI)
      show "\<forall>r<length h0. r \<noteq> x0 \<longrightarrow> ?h1 ! r = h0 ! r"
        using frame l_kind by auto
      show "start (?h1 ! x0) = start (h0 ! x0)"
        using x0_start l_valid by (cases "l = x0") simp_all
      show "endp (h0 ! x0) \<le> endp (?h1 ! x0)"
        using x0_end l_valid by (cases "l = x0") simp_all
      show "x0 \<in> set rest \<longrightarrow>
            ?h1 ! x0 = h0 ! x0 \<or> (l = x0 \<and> start (?h1 ! x0) \<le> endp (?h1 ! x0))"
        by (rule dup1)
    qed (use rest_in x0_in len dist valid l_kind srt' in simp_all)
    have pre_same: "map ((!) ?h1) pre = map ((!) h) pre"
    proof (rule map_cong [OF refl])
      fix r assume "r \<in> set pre"
      then have "r \<noteq> l" using l_fresh by auto
      then show "?h1 ! r = h ! r" by simp
    qed
    have "map ((!) h') merged' = map ((!) ?h1) pre @ merge_fold (?h1 ! l) (map ((!) h0) rest)"
      by (rule Cons.IH [OF inv1 run])
    also have "\<dots> = map ((!) h) pre @ merge_fold ?v (map ((!) h0) rest)"
      using pre_same l_valid by simp
    also have "\<dots> = map ((!) h) pre @ merge_fold (h ! l) (map ((!) h0) (cur # rest))"
      using True c_start v_spec by simp
    finally show ?thesis .
  next
    case False
    let ?h1 = "h @ [?c]"
    have run: "merge_loop rest ((pre @ [l]) @ [length h]) ?h1 = (merged', h')"
      using Cons.prems(2) False by (simp add: Let_def)
    have c_orig: "?c = h0 ! cur"
    proof (rule ccontr)
      assume ne: "?c \<noteq> h0 ! cur"
      then have "cur = x0" using frame cur_in by auto
      with ne dup have "l = x0 \<and> start (h ! x0) \<le> endp (h ! x0)" by auto
      with \<open>cur = x0\<close> False show False by simp
    qed
    have x0_orig: "x0 \<in> set rest \<Longrightarrow> h ! x0 = h0 ! x0"
    proof (rule ccontr)
      assume mem: "x0 \<in> set rest" and ne: "h ! x0 \<noteq> h0 ! x0"
      with dup have lx: "l = x0" and wf: "start (h ! x0) \<le> endp (h ! x0)" by auto
      have "start (h0 ! cur) \<le> start (h0 ! x0)" using srt mem by auto
      with False lx wf c_start x0_start show False by simp
    qed
    have x0_len: "x0 < length h" using x0_in len by simp
    have inv1: "merge_inv h0 x0 ?h1 (pre @ [l]) (length h) rest"
      unfolding merge_inv_def
    proof (intro conjI)
      show "\<forall>r<length h0. r \<noteq> x0 \<longrightarrow> ?h1 ! r = h0 ! r"
        using frame len by (auto simp: nth_append)
      show "distinct ((pre @ [l]) @ [length h])"
        using dist valid by (auto simp: list_all_iff)
      show "list_all (\<lambda>r. r < length ?h1) ((pre @ [l]) @ [length h])"
        using valid by (auto simp: list_all_iff)
      show "length h = x0 \<or> length h0 \<le> length h" using len by simp
      show "start (?h1 ! x0) = start (h0 ! x0)" using x0_start x0_len by (simp add: nth_append)
      show "endp (h0 ! x0) \<le> endp (?h1 ! x0)" using x0_end x0_len by (simp add: nth_append)
      show "x0 \<in> set rest \<longrightarrow> ?h1 ! x0 = h0 ! x0
            \<or> (length h = x0 \<and> start (?h1 ! x0) \<le> endp (?h1 ! x0))"
        using x0_orig x0_len by (simp add: nth_append)
    qed (use rest_in x0_in len srt' in simp_all)
    have old_same: "map ((!) ?h1) (pre @ [l]) = map ((!) h) (pre @ [l])"
      using valid by (auto simp: list_all_iff nth_append)
    have "map ((!) h') merged' =
          map ((!) ?h1) (pre @ [l]) @ merge_fold (?h1 ! length h) (map ((!) h0) rest)"
      by (rule Cons.IH [OF inv1 run])
    also have "\<dots> = map ((!) h) pre @ (h ! l) # merge_fold ?c (map ((!) h0) rest)"
      using old_same by simp
    also have "\<dots> = map ((!) h) pre @ merge_fold (h ! l) (map ((!) h0) (cur # rest))"
      using False c_start c_orig by simp
    finally show ?thesis .
  qed
qed

lemma merge_loop_valid:
  "list_all (\<lambda>r. r < length h) merged \<Longrightarrow> merge_loop rest merged h = (merged', h') \<Longrightarrow>
   list_all (\<lambda>r. r < length h') merged'"
proof (induction rest arbitrary: merged h)
  case Nil
  then show ?case by simp
next
  case (Cons cur rest)
  show ?case
  proof (cases "start (h ! cur) \<le> endp (h ! last merged)")
    case True
    let ?h1 = "h[last merged := (h ! last merged)
                  \<lparr>endp := max (endp (h ! last merged)) (endp (h ! cur))\<rparr>]"
    have "merge_loop rest merged ?h1 = (merged', h')"
      using Cons.prems(2) True by (simp add: Let_def)
    moreover have "list_all (\<lambda>r. r < length ?h1) merged" using Cons.prems(1) by simp
    ultimately show ?thesis by (rule Cons.IH [rotated])
  next
    case False
    have "merge_loop rest (merged @ [length h]) (h @ [h ! cur]) = (merged', h')"
      using Cons.prems(2) False by (simp add: Let_def)
    moreover have "list_all (\<lambda>r. r < length (h @ [h ! cur])) (merged @ [length h])"
      using Cons.prems(1) by (auto simp: list_all_iff)
    ultimately show ?thesis by (rule Cons.IH [rotated])
  qed
qed

lemma sort_key_split:
  assumes "ranges \<noteq> []"
  obtains x0 rest where "sort_key f ranges = x0 # rest"
proof -
  have "sort_key f ranges \<noteq> []" using assms by (metis length_sort length_0_conv)
  then show ?thesis using that by (cases "sort_key f ranges") auto
qed

lemma mergeRanges_refines:
  assumes "valid_refs h ranges" and "mergeRanges h ranges = (merged, h')"
  shows "deref h' merged = spec_mergeRanges (deref h ranges)"
proof (cases "ranges = []")
  case True
  then show ?thesis
    using assms(2) by (auto simp: mergeRanges_def deref_def spec_mergeRanges_def)
next
  case False
  let ?s = "sort_key (\<lambda>r. start (h ! r)) ranges"
  obtain x0 rest where s: "?s = x0 # rest" using False by (rule sort_key_split)
  have set_s: "set ?s = set ranges" by simp
  have all_in: "list_all (\<lambda>r. r < length h) (x0 # rest)"
    using assms(1) set_s unfolding s valid_refs_def list_all_iff by auto
  have srt: "sorted (map (\<lambda>r. start (h ! r)) (x0 # rest))"
    using sorted_sort_key [of "\<lambda>r. start (h ! r)" ranges] unfolding s .
  have inv: "merge_inv h x0 h [] x0 rest"
    using all_in srt by (simp add: merge_inv_def)
  have run: "merge_loop rest ([] @ [x0]) h = (merged, h')"
    using assms(2) False s by (simp add: mergeRanges_def Let_def)
  have "map ((!) h') merged = merge_fold (h ! x0) (map ((!) h) rest)"
    using merge_loop_refines [OF inv run] by simp
  moreover have "sort_key start (map ((!) h) ranges) = (h ! x0) # map ((!) h) rest"
    using sort_key_map [of "(!) h" start ranges] s by simp
  ultimately show ?thesis by (simp add: deref_def spec_mergeRanges_def)
qed

lemma mergeRanges_valid:
  assumes "valid_refs h ranges" and "mergeRanges h ranges = (merged, h')"
  shows "valid_refs h' merged"
proof (cases "ranges = []")
  case True
  then show ?thesis using assms(2) by (auto simp: mergeRanges_def valid_refs_def)
next
  case False
  let ?s = "sort_key (\<lambda>r. start (h ! r)) ranges"
  obtain x0 rest where s: "?s = x0 # rest" using False by (rule sort_key_split)
  have "x0 \<in> set ranges" using s set_sort [of "\<lambda>r. start (h ! r)" ranges] by auto
  then have "list_all (\<lambda>r. r < length h) [x0]"
    using assms(1) by (auto simp: valid_refs_def list_all_iff)
  moreover have "merge_loop rest [x0] h = (merged, h')"
    using assms(2) False s by (simp add: mergeRanges_def Let_def)
  ultimately show ?thesis unfolding valid_refs_def by (rule merge_loop_valid)
qed

text \<open>
  C9. \<^verbatim>\<open>mergeRanges\<close> is not free of effects on its input: called on the two spans
  \<open>{0, 10}\<close> and \<open>{8, 15}\<close> it returns the first object as the only element of the result
  and has set its \<^verbatim>\<open>end\<close> to 15. The later elements of the result are copies
  (\<^verbatim>\<open>{ ...curr }\<close>); the first one is not.
\<close>

theorem mergeRanges_mutates_input:
  "mergeRanges [\<lparr>start = 0, endp = 10\<rparr>, \<lparr>start = 8, endp = 15\<rparr>] [0, 1]
   = ([0], [\<lparr>start = 0, endp = 15\<rparr>, \<lparr>start = 8, endp = 15\<rparr>])"
  by code_simp

text \<open>
  C10. Merging is idempotent on values: for every store and every input array of
  valid references, merging the result of \<^verbatim>\<open>mergeRanges\<close> again yields the same list
  of spans; and an input that is sorted by start with a strict gap between adjacent
  spans comes back unchanged as a list of spans.
\<close>

theorem mergeRanges_idempotent:
  assumes "valid_refs h ranges" and "mergeRanges h ranges = (merged, h')"
    and "mergeRanges h' merged = (merged2, h'')"
  shows "deref h'' merged2 = deref h' merged
    \<and> (sorted (map start (deref h ranges)) \<and> successively strict_gap (deref h ranges)
         \<longrightarrow> deref h' merged = deref h ranges)"
proof -
  have first: "deref h' merged = spec_mergeRanges (deref h ranges)"
    by (rule mergeRanges_refines [OF assms(1,2)])
  have "valid_refs h' merged" by (rule mergeRanges_valid [OF assms(1,2)])
  from mergeRanges_refines [OF this assms(3)]
  have "deref h'' merged2 = spec_mergeRanges (deref h' merged)" .
  then have "deref h'' merged2 = deref h' merged"
    unfolding first by (simp add: spec_mergeRanges_idem)
  then show ?thesis using first spec_mergeRanges_fixed by simp
qed

theorem mergeRanges_idempotent_witness:
  "valid_refs [\<lparr>start = 20, endp = 25\<rparr>, \<lparr>start = 8, endp = 15\<rparr>, \<lparr>start = 0, endp = 10\<rparr>] [0, 1, 2]
   \<and> mergeRanges [\<lparr>start = 20, endp = 25\<rparr>, \<lparr>start = 8, endp = 15\<rparr>, \<lparr>start = 0, endp = 10\<rparr>] [0, 1, 2]
      = ([2, 3], [\<lparr>start = 20, endp = 25\<rparr>, \<lparr>start = 8, endp = 15\<rparr>, \<lparr>start = 0, endp = 15\<rparr>,
                  \<lparr>start = 20, endp = 25\<rparr>])
   \<and> mergeRanges [\<lparr>start = 20, endp = 25\<rparr>, \<lparr>start = 8, endp = 15\<rparr>, \<lparr>start = 0, endp = 15\<rparr>,
                  \<lparr>start = 20, endp = 25\<rparr>] [2, 3]
      = ([2, 4], [\<lparr>start = 20, endp = 25\<rparr>, \<lparr>start = 8, endp = 15\<rparr>, \<lparr>start = 0, endp = 15\<rparr>,
                  \<lparr>start = 20, endp = 25\<rparr>, \<lparr>start = 20, endp = 25\<rparr>])
   \<and> deref [\<lparr>start = 20, endp = 25\<rparr>, \<lparr>start = 8, endp = 15\<rparr>, \<lparr>start = 0, endp = 15\<rparr>,
             \<lparr>start = 20, endp = 25\<rparr>, \<lparr>start = 20, endp = 25\<rparr>] [2, 4]
      = [\<lparr>start = 0, endp = 15\<rparr>, \<lparr>start = 20, endp = 25\<rparr>]
   \<and> deref [\<lparr>start = 20, endp = 25\<rparr>, \<lparr>start = 8, endp = 15\<rparr>, \<lparr>start = 0, endp = 15\<rparr>,
             \<lparr>start = 20, endp = 25\<rparr>] [2, 3]
      = [\<lparr>start = 0, endp = 15\<rparr>, \<lparr>start = 20, endp = 25\<rparr>]"
proof -
  let ?h = "[\<lparr>start = 20, endp = 25\<rparr>, \<lparr>start = 8, endp = 15\<rparr>, \<lparr>start = 0, endp = 10\<rparr>]"
  let ?h1 = "[\<lparr>start = 20, endp = 25\<rparr>, \<lparr>start = 8, endp = 15\<rparr>, \<lparr>start = 0, endp = 15\<rparr>,
              \<lparr>start = 20, endp = 25\<rparr>]"
  let ?h2 = "[\<lparr>start = 20, endp = 25\<rparr>, \<lparr>start = 8, endp = 15\<rparr>, \<lparr>start = 0, endp = 15\<rparr>,
              \<lparr>start = 20, endp = 25\<rparr>, \<lparr>start = 20, endp = 25\<rparr>]"
  have valid: "valid_refs ?h [0, 1, 2]" by (simp add: valid_refs_def)
  have run1: "mergeRanges ?h [0, 1, 2] = ([2, 3], ?h1)" by code_simp
  have run2: "mergeRanges ?h1 [2, 3] = ([2, 4], ?h2)" by code_simp
  from mergeRanges_idempotent [OF valid run1 run2]
  show ?thesis using valid run1 run2 by (simp add: deref_def)
qed

section \<open>Mapping blocks to character ranges\<close>

text \<open>
  For blocks of size 1 or more the guard of \<^verbatim>\<open>blocksToCharRanges\<close> is complete: the
  blocks inside the bounds are mapped to their spans, all others are skipped, and the
  spans are merged.
\<close>

lemma btc_loop_guarded:
  assumes "list_all (\<lambda>blk. 1 \<le> size_mb blk) blocks"
  shows "btc_loop blocks spans sd ranges
         = Inr (ranges @ map (block_span spans sd) (filter (block_in_bounds spans sd) blocks))"
  using assms
proof (induction blocks arbitrary: ranges)
  case Nil
  then show ?case by simp
next
  case (Cons block rest)
  let ?ts = "token_start sd block"
  let ?te = "?ts + size_mb block - 1"
  have sz: "1 \<le> size_mb block" and rest: "list_all (\<lambda>blk. 1 \<le> size_mb blk) rest"
    using Cons.prems by simp_all
  show ?case
  proof (cases "?ts < 0 \<or> ?te \<ge> int (length spans)")
    case True
    then have "\<not> block_in_bounds spans sd block" by (auto simp: block_in_bounds_def)
    then show ?thesis
      using True Cons.IH [OF rest] by (simp add: Let_def token_start_def)
  next
    case False
    then have inb: "block_in_bounds spans sd block" by (auto simp: block_in_bounds_def)
    have "js_nth spans ?ts = Some (spans ! nat ?ts)"
      and "js_nth spans ?te = Some (spans ! nat ?te)"
      using False sz by (simp_all add: js_nth_def)
    then show ?thesis
      using False inb Cons.IH [OF rest]
      by (simp add: Let_def token_start_def block_span_def)
  qed
qed

lemma mergeRanges_fresh_spec: "mergeRanges_fresh ranges = spec_mergeRanges ranges"
proof -
  obtain merged h' where run: "mergeRanges ranges [0..<length ranges] = (merged, h')"
    by (cases "mergeRanges ranges [0..<length ranges]") auto
  have "valid_refs ranges [0..<length ranges]" by (simp add: valid_refs_def list_all_iff)
  from mergeRanges_refines [OF this run]
  have "deref h' merged = spec_mergeRanges (deref ranges [0..<length ranges])" .
  moreover have "deref ranges [0..<length ranges] = ranges" by (simp add: deref_def map_nth)
  ultimately show ?thesis using run by (simp add: mergeRanges_fresh_def)
qed

lemma blocksToCharRanges_guarded:
  assumes "list_all (\<lambda>blk. 1 \<le> size_mb blk) blocks"
  shows "blocksToCharRanges blocks spans sd
         = Inr (spec_mergeRanges (map (block_span spans sd)
                  (filter (block_in_bounds spans sd) blocks)))"
  using btc_loop_guarded [OF assms, of spans sd "[]"]
  by (simp add: blocksToCharRanges_def mergeRanges_fresh_spec)

lemma overlapRanges_sorted_disjoint:
  "\<exists>human ai. overlapRanges humanText aiText = Some (Inr (human, ai))
     \<and> sorted (map start human) \<and> sorted_wrt strict_gap human
     \<and> sorted (map start ai) \<and> sorted_wrt strict_gap ai"
proof -
  let ?hs = "tokenizeWithSpans humanText" and ?as = "tokenizeWithSpans aiText"
  obtain blocks where run: "findMatchingBlocks (map token ?hs) (map token ?as) 3 = Some blocks"
    and ok: "list_all (block_ok (map token ?hs) (map token ?as) 3) blocks"
    using findMatchingBlocks_total [of 3 "map token ?hs" "map token ?as"] by auto
  have sz: "list_all (\<lambda>blk. 1 \<le> size_mb blk) blocks"
    using ok by (auto simp: list_all_iff block_ok_def)
  let ?human = "spec_mergeRanges (map (block_span ?hs SideA) (filter (block_in_bounds ?hs SideA) blocks))"
  let ?ai = "spec_mergeRanges (map (block_span ?as SideB) (filter (block_in_bounds ?as SideB) blocks))"
  have "overlapRanges humanText aiText = Some (Inr (?human, ?ai))"
    using run by (simp add: overlapRanges_def Let_def blocksToCharRanges_guarded [OF sz])
  then show ?thesis
    using spec_mergeRanges_sorted spec_mergeRanges_gaps gaps_pairwise by blast
qed

text \<open>
  C8. The guard \<^verbatim>\<open>tokenStart < 0 || tokenEnd >= spans.length\<close> does not cover a block of
  size 0: on an empty span list the block \<open>{0, 0, 0}\<close> has \<open>tokenStart = 0\<close> and
  \<open>tokenEnd = -1\<close>, passes the guard, and the read of \<^verbatim>\<open>spans[0].start\<close> throws.
\<close>

theorem blocksToCharRanges_throws:
  "blocksToCharRanges [\<lparr>aStart = 0, bStart = 0, size_mb = 0\<rparr>] [] SideA = Inl TypeError"
  by code_simp

text \<open>
  C3. For every store and every input array of valid references (whether or not the
  spans have \<open>start \<le> end\<close>), the spans returned by \<^verbatim>\<open>mergeRanges\<close> are sorted by start,
  and every span ends strictly before every later span starts; they are the result
  of the fold that extends the current span to the larger end whenever the next span
  starts at or before the current end; the empty input gives the empty output.
  Hence, for all texts, the overlap computation of the panel returns ranges for the
  human text and for the AI text that are sorted by start and pairwise separated by a
  strict gap.
\<close>

theorem mergeRanges_sorted_disjoint:
  assumes "valid_refs h ranges" and "mergeRanges h ranges = (merged, h')"
  shows "sorted (map start (deref h' merged))
    \<and> sorted_wrt strict_gap (deref h' merged)
    \<and> deref h' merged = spec_mergeRanges (deref h ranges)
    \<and> (ranges = [] \<longrightarrow> merged = [])
    \<and> (\<exists>human ai. overlapRanges humanText aiText = Some (Inr (human, ai))
          \<and> sorted (map start human) \<and> sorted_wrt strict_gap human
          \<and> sorted (map start ai) \<and> sorted_wrt strict_gap ai)"
proof -
  have eq: "deref h' merged = spec_mergeRanges (deref h ranges)"
    by (rule mergeRanges_refines [OF assms])
  have "ranges = [] \<longrightarrow> merged = []" using assms(2) by (auto simp: mergeRanges_def)
  then show ?thesis
    using eq spec_mergeRanges_sorted [of "deref h ranges"]
      gaps_pairwise [OF spec_mergeRanges_sorted spec_mergeRanges_gaps, of "deref h ranges"]
      overlapRanges_sorted_disjoint [of humanText aiText]
    by simp
qed

theorem mergeRanges_sorted_disjoint_witness:
  "valid_refs [\<lparr>start = 20, endp = 25\<rparr>, \<lparr>start = 8, endp = 15\<rparr>, \<lparr>start = 0, endp = 10\<rparr>,
               \<lparr>start = 15, endp = 18\<rparr>] [0, 1, 2, 3]
   \<and> mergeRanges [\<lparr>start = 20, endp = 25\<rparr>, \<lparr>start = 8, endp = 15\<rparr>, \<lparr>start = 0, endp = 10\<rparr>,
                  \<lparr>start = 15, endp = 18\<rparr>] [0, 1, 2, 3]
      = ([2, 4], [\<lparr>start = 20, endp = 25\<rparr>, \<lparr>start = 8, endp = 15\<rparr>, \<lparr>start = 0, endp = 18\<rparr>,
                  \<lparr>start = 15, endp = 18\<rparr>, \<lparr>start = 20, endp = 25\<rparr>])
   \<and> spec_mergeRanges [\<lparr>start = 20, endp = 25\<rparr>, \<lparr>start = 8, endp = 15\<rparr>,
                       \<lparr>start = 0, endp = 10\<rparr>, \<lparr>start = 15, endp = 18\<rparr>]
      = [\<lparr>start = 0, endp = 18\<rparr>, \<lparr>start = 20, endp = 25\<rparr>]
   \<and> sorted_wrt strict_gap [\<lparr>start = 0, endp = 18\<rparr>, \<lparr>start = 20, endp = 25\<rparr>]
   \<and> overlapRanges ''a b c, d'' ''A B C: e''
      = Some (Inr ([\<lparr>start = 0, endp = 5\<rparr>], [\<lparr>start = 0, endp = 5\<rparr>]))"
proof -
  let ?h = "[\<lparr>start = 20, endp = 25\<rparr>, \<lparr>start = 8, endp = 15\<rparr>, \<lparr>start = 0, endp = 10\<rparr>,
             \<lparr>start = 15, endp = 18\<rparr>]"
  let ?h' = "[\<lparr>start = 20, endp = 25\<rparr>, \<lparr>start = 8, endp = 15\<rparr>, \<lparr>start = 0, endp = 18\<rparr>,
              \<lparr>start = 15, endp = 18\<rparr>, \<lparr>start = 20, endp = 25\<rparr>]"
  have valid: "valid_refs ?h [0, 1, 2, 3]" by (simp add: valid_refs_def)
  have run: "mergeRanges ?h [0, 1, 2, 3] = ([2, 4], ?h')" by code_simp
  have e2e: "overlapRanges ''a b c, d'' ''A B C: e''
             = Some (Inr ([\<lparr>start = 0, endp = 5\<rparr>], [\<lparr>start = 0, endp = 5\<rparr>]))"
    by code_simp
  have d: "deref ?h' [2, 4] = [\<lparr>start = 0, endp = 18\<rparr>, \<lparr>start = 20, endp = 25\<rparr>]"
    "deref ?h [0, 1, 2, 3] = ?h"
    by (simp_all add: deref_def)
  from mergeRanges_sorted_disjoint [OF valid run, of "''a b c, d''" "''A B C: e''"]
  have gaps: "sorted_wrt strict_gap (deref ?h' [2, 4])"
    and spec: "deref ?h' [2, 4] = spec_mergeRanges (deref ?h [0, 1, 2, 3])"
    by blast+
  from gaps have "sorted_wrt strict_gap [\<lparr>start = 0, endp = 18\<rparr>, \<lparr>start = 20, endp = 25\<rparr>]"
    unfolding d .
  moreover from spec have "spec_mergeRanges ?h = [\<lparr>start = 0, endp = 18\<rparr>, \<lparr>start = 20, endp = 25\<rparr>]"
    unfolding d by simp
  ultimately show ?thesis using valid run e2e by blast
qed

section \<open>Round trip of the renderer\<close>

lemma slice_in_range:
  "0 \<le> s \<Longrightarrow> s \<le> e \<Longrightarrow> e \<le> int (length xs) \<Longrightarrow>
   slice xs s e = take (nat (e - s)) (drop (nat s) xs)"
  by (simp add: slice_def Let_def min_def)

lemma slice_append:
  assumes "0 \<le> s" "s \<le> m" "m \<le> e" "e \<le> int (length xs)"
  shows "slice xs s m @ slice xs m e = slice xs s e"
proof -
  have a: "nat (e - s) = nat (m - s) + nat (e - m)" using assms by simp
  have b: "drop (nat (m - s)) (drop (nat s) xs) = drop (nat m) xs"
    using assms by (simp add: nat_diff_distrib)
  have "take (nat (e - s)) (drop (nat s) xs) =
        take (nat (m - s)) (drop (nat s) xs) @ take (nat (e - m)) (drop (nat m) xs)"
    unfolding a take_add b ..
  then show ?thesis using assms by (simp add: slice_in_range)
qed

lemma slice_empty: "0 \<le> s \<Longrightarrow> s \<le> int (length xs) \<Longrightarrow> slice xs s s = []"
  by (simp add: slice_in_range)

lemma slice_all: "slice xs 0 (int (length xs)) = xs"
  by (simp add: slice_in_range)

lemma highlight_loop_text:
  assumes "0 \<le> cursor" "cursor \<le> int (length text)"
    and "list_all (\<lambda>r. cursor \<le> start r \<and> start r \<le> endp r \<and> endp r \<le> int (length text)) ranges"
    and "sorted_wrt (\<lambda>r s. endp r \<le> start s) ranges"
    and "highlight_loop text ranges cursor nodes = (cursor', nodes')"
  shows "concat (map node_text nodes') = concat (map node_text nodes) @ slice text cursor cursor'
         \<and> cursor \<le> cursor' \<and> cursor' \<le> int (length text)"
  using assms
proof (induction ranges arbitrary: cursor nodes)
  case Nil
  then show ?case by (simp add: slice_empty)
next
  case (Cons rng rest)
  let ?n1 = "if start rng > cursor
             then nodes @ [Fragment (slice text cursor (start rng))] else nodes"
  let ?n2 = "?n1 @ [Mark (slice text (start rng) (endp rng))]"
  from Cons.prems have b: "cursor \<le> start rng" "start rng \<le> endp rng"
    "endp rng \<le> int (length text)" by simp_all
  have rest_ok: "list_all (\<lambda>r. endp rng \<le> start r \<and> start r \<le> endp r
                              \<and> endp r \<le> int (length text)) rest"
    using Cons.prems(3,4) by (auto simp: list_all_iff)
  have run: "highlight_loop text rest (endp rng) ?n2 = (cursor', nodes')"
    using Cons.prems(5) by (simp add: Let_def)
  have ih: "concat (map node_text nodes') =
            concat (map node_text ?n2) @ slice text (endp rng) cursor'
            \<and> endp rng \<le> cursor' \<and> cursor' \<le> int (length text)"
    using Cons.IH [OF _ b(3) rest_ok _ run] Cons.prems(1,4) b by simp
  have gap: "concat (map node_text ?n1) =
             concat (map node_text nodes) @ slice text cursor (start rng)"
    using b Cons.prems(1) by (cases "start rng > cursor") (simp_all add: slice_empty)
  have "concat (map node_text ?n2) =
        concat (map node_text nodes) @ slice text cursor (endp rng)"
    using gap slice_append [of cursor "start rng" "endp rng" "text"] b Cons.prems(1)
    by simp
  moreover have "slice text cursor (endp rng) @ slice text (endp rng) cursor' =
                 slice text cursor cursor'"
    using slice_append [of cursor "endp rng" cursor' "text"] b ih Cons.prems(1) by simp
  ultimately show ?case using ih b by simp
qed

text \<open>
  C7. For every text and every range list that lies within the text, is sorted by start
  and has no two overlapping ranges, the text fragments of the nodes produced by
  \<^verbatim>\<open>highlightByRanges\<close> (the gap before each range, the highlighted range, the tail
  after the last range), concatenated in order, are the text itself; with no range
  the raw text is returned as it is.
\<close>

theorem highlightByRanges_roundtrip:
  "(ranges_in_text text ranges \<longrightarrow> rendered_text (highlightByRanges text ranges) = text)
   \<and> highlightByRanges text [] = RawText text"
proof (intro conjI impI)
  assume ok: "ranges_in_text text ranges"
  show "rendered_text (highlightByRanges text ranges) = text"
  proof (cases "ranges = []")
    case True
    then show ?thesis by (simp add: highlightByRanges_def)
  next
    case False
    obtain cursor nodes where run: "highlight_loop text ranges 0 [] = (cursor, nodes)"
      by (cases "highlight_loop text ranges 0 []") auto
    have pre: "list_all (\<lambda>r. 0 \<le> start r \<and> start r \<le> endp r
                             \<and> endp r \<le> int (length text)) ranges"
      and srt: "sorted_wrt (\<lambda>r s. endp r \<le> start s) ranges"
      using ok by (simp_all add: ranges_in_text_def)
    have body: "concat (map node_text nodes) = slice text 0 cursor"
      and c: "0 \<le> cursor" "cursor \<le> int (length text)"
      using highlight_loop_text [OF _ _ pre srt run] by simp_all
    show ?thesis
    proof (cases "cursor < int (length text)")
      case True
      have "slice text 0 cursor @ slice text cursor (int (length text)) = text"
        using slice_append [of 0 cursor "int (length text)" "text"] c slice_all [of "text"]
        by simp
      then show ?thesis
        using False run True body by (simp add: highlightByRanges_def slice_from_def)
    next
      case nolt: False
      then have "cursor = int (length text)" using c by simp
      then show ?thesis
        using False run body slice_all [of "text"] by (simp add: highlightByRanges_def)
    qed
  qed
next
  show "highlightByRanges text [] = RawText text"
    by (simp add: highlightByRanges_def)
qed

theorem highlightByRanges_roundtrip_witness:
  "ranges_in_text ''the quick fox'' [\<lparr>start = 4, endp = 9\<rparr>, \<lparr>start = 10, endp = 13\<rparr>]
   \<and> highlightByRanges ''the quick fox'' [\<lparr>start = 4, endp = 9\<rparr>, \<lparr>start = 10, endp = 13\<rparr>]
     = Nodes [Fragment ''the '', Mark ''quick'', Fragment '' '', Mark ''fox'']
   \<and> rendered_text (highlightByRanges ''the quick fox''
        [\<lparr>start = 4, endp = 9\<rparr>, \<lparr>start = 10, endp = 13\<rparr>]) = ''the quick fox''"
proof -
  have ok: "ranges_in_text ''the quick fox'' [\<lparr>start = 4, endp = 9\<rparr>, \<lparr>start = 10, endp = 13\<rparr>]"
    by (simp add: ranges_in_text_def)
  have v: "highlightByRanges ''the quick fox'' [\<lparr>start = 4, endp = 9\<rparr>, \<lparr>start = 10, endp = 13\<rparr>]
     = Nodes [Fragment ''the '', Mark ''quick'', Fragment '' '', Mark ''fox'']"
    by (simp add: highlightByRanges_def slice_def slice_from_def Let_def)
  from ok v highlightByRanges_roundtrip [of "''the quick fox''"
      "[\<lparr>start = 4, endp = 9\<rparr>, \<lparr>start = 10, endp = 13\<rparr>]"]
  show ?thesis by blast
qed

end
